theory Spec2Isabelle
  imports Complex_Main "HOL-Library.Word"
begin

section \<open>Working precision and failures\<close>

text \<open>
  The library is generic in its working precision \<open>Value\<close>.  The development fixes the
  exact instance, the rationals.  An exact rational type has no infinities or NaNs: dividing
  by a zero denominator raises.  A subscript outside a vector, a read of an object that
  was never initialised and a failed \<open>assert\<close> are failures of the run as well, so each
  of them is a value of \<open>error\<close>.  \<open>InvalidArgument\<close> is the one exception the source
  throws itself (\<open>std::invalid_argument\<close>).  \<open>OutOfFuel\<close> is no failure of the program: it
  marks a bounded unfolding of a caller's loop that was cut off.
\<close>

datatype error =
  InvalidArgument | OutOfRange | DivisionByZero | Indeterminate | AssertionFailed | OutOfFuel

type_synonym 'a result = "error + 'a"

definition vdiv :: "rat \<Rightarrow> rat \<Rightarrow> rat result" where
  "vdiv x y = (if y = 0 then Inl DivisionByZero else Inr (x / y))"

text \<open>Checked subscript \<open>v[i]\<close>.\<close>

definition subscript :: "'a list \<Rightarrow> nat \<Rightarrow> 'a result" where
  "subscript v i = (if i < length v then Inr (v ! i) else Inl OutOfRange)"

text \<open>
  \<open>std::inner_product(first1, last1, first2, init)\<close>: the accumulator starts at \<open>init\<close>
  and takes \<open>acc + x * y\<close> from left to right; the first range fixes the number of steps.
\<close>

fun inner_product :: "rat list \<Rightarrow> rat list \<Rightarrow> rat \<Rightarrow> rat" where
  "inner_product [] ys init = init"
| "inner_product (x # xs) [] init = init"
| "inner_product (x # xs) (y # ys) init = inner_product xs ys (init + x * y)"

section \<open>Zohar's Toeplitz solver\<close>

record zohar_state =
  s :: "rat list"
  ehat :: "rat list"
  g :: "rat list"
  lambda :: rat

text \<open>
  The inner loop \<open>for (j = 0; j < i; ++j)\<close> of one recursion level: \<open>s[j]\<close> and \<open>g[j]\<close>
  are updated in place, \<open>next_ehat\<close> is appended to, \<open>ehat\<close> is only read.
\<close>

definition zohar_sweep ::
  "rat list \<Rightarrow> rat \<Rightarrow> rat \<Rightarrow> rat \<Rightarrow> nat \<Rightarrow>
   rat list \<times> rat list \<times> rat list \<Rightarrow> rat list \<times> rat list \<times> rat list" where
  "zohar_sweep eh theta_by_lambda eta_by_lambda gamma_by_lambda i =
     fold (\<lambda>j (sv, next_ehat, gv).
             (sv[j := sv ! j + theta_by_lambda * eh ! j],
              next_ehat @ [eh ! j + eta_by_lambda * gv ! j],
              gv[j := gv ! j + gamma_by_lambda * eh ! j]))
          [0..<i]"

text \<open>
  The body of \<open>for (i = 1; i < n; ++i)\<close>.  \<open>rhat_first\<close> is the reverse iterator at
  \<open>r_first + i\<close>, so the inner products against it read \<open>r[i-1], ..., r[0]\<close>; \<open>d\<close> is
  read at position \<open>i\<close> (\<open>*++d_first\<close>).
\<close>

definition zohar_step ::
  "rat list \<Rightarrow> rat list \<Rightarrow> rat list \<Rightarrow> nat \<Rightarrow> zohar_state \<Rightarrow> zohar_state result" where
  "zohar_step a r d i st =
     (case subscript d i of Inl e \<Rightarrow> Inl e | Inr di \<Rightarrow>
      case subscript a i of Inl e \<Rightarrow> Inl e | Inr ai \<Rightarrow>
      case subscript r i of Inl e \<Rightarrow> Inl e | Inr ri \<Rightarrow>
      let rhat = rev (take i r);
          neg_theta = inner_product (s st) rhat (- di);
          neg_eta = inner_product (ehat st) a ai;
          neg_gamma = inner_product (g st) rhat ri
      in
      case vdiv (- neg_theta) (lambda st) of Inl e \<Rightarrow> Inl e | Inr theta_by_lambda \<Rightarrow>
      case vdiv (- neg_eta) (lambda st) of Inl e \<Rightarrow> Inl e | Inr eta_by_lambda \<Rightarrow>
      case vdiv (- neg_gamma) (lambda st) of Inl e \<Rightarrow> Inl e | Inr gamma_by_lambda \<Rightarrow>
      case zohar_sweep (ehat st) theta_by_lambda eta_by_lambda gamma_by_lambda i
             (s st, [eta_by_lambda], g st) of
        (sv, next_ehat, gv) \<Rightarrow>
      case vdiv (neg_eta * neg_gamma) (lambda st) of Inl e \<Rightarrow> Inl e | Inr q \<Rightarrow>
      Inr \<lparr>s = sv @ [theta_by_lambda], ehat = next_ehat, g = gv @ [gamma_by_lambda],
           lambda = lambda st - q\<rparr>)"

function zohar_loop ::
  "rat list \<Rightarrow> rat list \<Rightarrow> rat list \<Rightarrow> nat \<Rightarrow> nat \<Rightarrow> zohar_state \<Rightarrow> zohar_state result" where
  "zohar_loop a r d n i st =
     (if i < n then
        (case zohar_step a r d i st of Inl e \<Rightarrow> Inl e
         | Inr st' \<Rightarrow> zohar_loop a r d n (i + 1) st')
      else Inr st)"
  by pat_completeness auto
termination
  by (relation "measure (\<lambda>(a, r, d, n, i, st). n - i)") auto

declare zohar_loop.simps [simp del]

text \<open>The last level, \<open>i = n\<close>: only \<open>s\<close> is updated.\<close>

definition zohar_last :: "rat list \<Rightarrow> rat list \<Rightarrow> nat \<Rightarrow> zohar_state \<Rightarrow> rat list result" where
  "zohar_last r d n st =
     (case subscript d n of Inl e \<Rightarrow> Inl e | Inr dn \<Rightarrow>
      let rhat = rev (take n r);
          neg_theta = inner_product (s st) rhat (- dn)
      in
      case vdiv (- neg_theta) (lambda st) of Inl e \<Rightarrow> Inl e | Inr theta_by_lambda \<Rightarrow>
      Inr (fold (\<lambda>j sv. sv[j := sv ! j + theta_by_lambda * ehat st ! j]) [0..<n] (s st)
           @ [theta_by_lambda]))"

text \<open>
  The five-argument \<open>zohar_linear_solve(a_first, a_last, r_first, d_first, s_first)\<close>.
  The ranges are lists; the result is the sequence copied to \<open>s_first\<close>.  \<open>r\<close> must hold
  \<open>n\<close> entries and \<open>d\<close> \<open>n + 1\<close>; a read past either end is \<open>OutOfRange\<close>.
\<close>

definition zohar_linear_solve :: "rat list \<Rightarrow> rat list \<Rightarrow> rat list \<Rightarrow> rat list result" where
  "zohar_linear_solve a r d =
     (let dist = length a in
      if dist < 1 then Inl InvalidArgument
      else
        let n = dist in
        case subscript d 0 of Inl e \<Rightarrow> Inl e | Inr d0 \<Rightarrow>
        case subscript a 0 of Inl e \<Rightarrow> Inl e | Inr a0 \<Rightarrow>
        case subscript r 0 of Inl e \<Rightarrow> Inl e | Inr r0 \<Rightarrow>
        case zohar_loop a r d n 1 \<lparr>s = [d0], ehat = [- a0], g = [- r0], lambda = 1 - a0 * r0\<rparr>
        of Inl e \<Rightarrow> Inl e | Inr st \<Rightarrow> zohar_last r d n st)"

text \<open>
  The in-place overload passes \<open>d_first\<close> as \<open>s_first\<close>.  Every read of \<open>d\<close> precedes the
  final \<open>copy\<close>, so the buffer \<open>d\<close> afterwards holds the solution in its first \<open>n + 1\<close>
  places and its old content behind them.
\<close>

definition zohar_linear_solve_inplace :: "rat list \<Rightarrow> rat list \<Rightarrow> rat list \<Rightarrow> rat list result" where
  "zohar_linear_solve_inplace a r d =
     (case zohar_linear_solve a r d of Inl e \<Rightarrow> Inl e
      | Inr sv \<Rightarrow> Inr (sv @ drop (length sv) d))"

text \<open>The symmetric overload passes \<open>a_first\<close> as \<open>r_first\<close>.\<close>

definition zohar_linear_solve_symmetric :: "rat list \<Rightarrow> rat list \<Rightarrow> rat list result" where
  "zohar_linear_solve_symmetric a d = zohar_linear_solve_inplace a a d"

section \<open>Burg's method\<close>

subsection \<open>The mean by pairwise summation\<close>

text \<open>
  \<open>for (i = 0; i < N; ++i) b[i/2] += f[i]\<close>: the first pass folds the data into the
  zero-filled buffer \<open>b\<close>.
\<close>

definition first_pass :: "rat list \<Rightarrow> rat list \<Rightarrow> rat list" where
  "first_pass fv bv = fold (\<lambda>i bv. bv[i div 2 := bv ! (i div 2) + fv ! i]) [0..<length fv] bv"

text \<open>\<open>while (t /= 2) i *= 2\<close>, started at \<open>t = N\<close> and \<open>i = !!N\<close>.\<close>

function pow2_loop :: "nat \<Rightarrow> nat \<Rightarrow> nat" where
  "pow2_loop t i = (if t div 2 \<noteq> 0 then pow2_loop (t div 2) (i * 2) else i)"
  by pat_completeness auto
termination
  by (relation "measure (\<lambda>(t, i). t)") auto

declare pow2_loop.simps [simp del]

text \<open>\<open>for (j = 0; j < i; ++j) b[j] = b[2*j] + b[2*j+1]\<close>.\<close>

definition fold_pairs :: "nat \<Rightarrow> rat list \<Rightarrow> rat list" where
  "fold_pairs i bv = fold (\<lambda>j bv. bv[j := bv ! (2 * j) + bv ! (2 * j + 1)]) [0..<i] bv"

text \<open>\<open>while (i /= 2) for (...) ...\<close>: halve, stop at zero, else fold the pairs.\<close>

function halving_loop :: "nat \<Rightarrow> rat list \<Rightarrow> rat list" where
  "halving_loop i bv =
     (if i div 2 \<noteq> 0 then halving_loop (i div 2) (fold_pairs (i div 2) bv) else bv)"
  by pat_completeness auto
termination
  by (relation "measure (\<lambda>(i, bv). i)") auto

declare halving_loop.simps [simp del]

text \<open>The buffer \<open>b\<close> after the summation block; the sum is read from \<open>b[0]\<close>.\<close>

definition pairwise_sum :: "rat list \<Rightarrow> rat list" where
  "pairwise_sum fv =
     (let N = length fv;
          bv = first_pass fv (replicate N 0);
          i = pow2_loop N (if N \<noteq> 0 then 1 else 0)
      in halving_loop i bv)"

subsection \<open>The recursion\<close>

text \<open>
  The local variables of \<open>burg_method\<close> that live across iterations, and what has been
  written through the three output iterators used inside the loop.
\<close>

record burg_state =
  f :: "rat list"
  b :: "rat list"
  Ak :: "rat list"
  Dk :: rat
  sigma2e :: rat
  gain :: rat
  autocor :: "rat list"
  params_first :: "rat list"
  sigma2e_first :: "rat list"
  gain_first :: "rat list"

text \<open>
  The symmetric sweep \<open>for (n = 0; n <= kp1/2; ++n)\<close> over \<open>Ak\<close>: both temporaries are
  computed from the current vector, then both entries are stored.
\<close>

definition Ak_sweep :: "rat \<Rightarrow> nat \<Rightarrow> rat list \<Rightarrow> rat list" where
  "Ak_sweep mu kp1 =
     fold (\<lambda>n A. let t1 = A ! n - mu * A ! (kp1 - n);
                     t2 = A ! (kp1 - n) - mu * A ! n
                 in (A[n := t1])[kp1 - n := t2])
          [0..<kp1 div 2 + 1]"

text \<open>
  First half of the loop body: \<open>mu\<close>, \<open>sigma2e\<close>, \<open>Ak\<close>, \<open>gain\<close> and the next
  autocorrelation.  The two divisions are \<open>2/Dk\<close> and \<open>1 / (1 - Ak[kp1]*Ak[kp1])\<close>.
  \<open>f.begin() + kp1 .. f.end()\<close> is \<open>drop kp1 f\<close>, \<open>Ak.begin() + 1\<close> onwards is
  \<open>drop 1 Ak\<close>, and \<open>autocor.rbegin() .. rend()\<close> is \<open>rev autocor\<close>.
\<close>

definition burg_update :: "nat \<Rightarrow> burg_state \<Rightarrow> (rat \<times> burg_state) result" where
  "burg_update kp1 st =
     (case vdiv 2 (Dk st) of Inl e \<Rightarrow> Inl e | Inr q \<Rightarrow>
      let mu = q * inner_product (drop kp1 (f st)) (b st) 0;
          A = Ak_sweep mu kp1 (Ak st)
      in
      case vdiv 1 (1 - A ! kp1 * A ! kp1) of Inl e \<Rightarrow> Inl e | Inr q' \<Rightarrow>
      Inr (mu, st\<lparr>sigma2e := sigma2e st * (1 - mu * mu),
                   Ak := A,
                   gain := gain st * q',
                   autocor := autocor st @
                     [- inner_product (rev (autocor st)) (drop 1 A) (A ! kp1)]\<rparr>))"

text \<open>\<open>if (hierarchy || kp1 == maxorder)\<close>: emit \<open>Ak[1..kp1]\<close>, \<open>sigma2e\<close> and \<open>gain\<close>.\<close>

definition burg_emit :: "bool \<Rightarrow> nat \<Rightarrow> nat \<Rightarrow> burg_state \<Rightarrow> burg_state" where
  "burg_emit hierarchy maxorder kp1 st =
     (if hierarchy \<or> kp1 = maxorder then
        st\<lparr>params_first := params_first st @ take kp1 (drop 1 (Ak st)),
           sigma2e_first := sigma2e_first st @ [sigma2e st],
           gain_first := gain_first st @ [gain st]\<rparr>
      else st)"

text \<open>The coupled update \<open>for (n = 0; n < N - kp1; ++n)\<close> of \<open>f\<close> and \<open>b\<close>.\<close>

definition residual_sweep :: "rat \<Rightarrow> nat \<Rightarrow> nat \<Rightarrow> rat list \<times> rat list \<Rightarrow> rat list \<times> rat list" where
  "residual_sweep mu kp1 cnt =
     fold (\<lambda>n (fv, bv). let t1 = fv ! (n + kp1) - mu * bv ! n;
                            t2 = bv ! n - mu * fv ! (n + kp1)
                        in (fv[n + kp1 := t1], bv[n := t2]))
          [0..<cnt]"

text \<open>\<open>if (kp1 < maxorder)\<close>: update \<open>f\<close>, \<open>b\<close> and then \<open>Dk\<close>.\<close>

definition burg_residuals :: "nat \<Rightarrow> nat \<Rightarrow> nat \<Rightarrow> rat \<Rightarrow> burg_state \<Rightarrow> burg_state" where
  "burg_residuals N maxorder kp1 mu st =
     (if kp1 < maxorder then
        (case residual_sweep mu kp1 (N - kp1) (f st, b st) of
           (fv, bv) \<Rightarrow>
             st\<lparr>f := fv, b := bv,
                Dk := (1 - mu * mu) * Dk st - fv ! kp1 * fv ! kp1
                      - bv ! (N - kp1 - 1) * bv ! (N - kp1 - 1)\<rparr>)
      else st)"

text \<open>
  \<open>for (kp1 = 1; kp1 <= maxorder; ++kp1)\<close>.  A division by zero ends the run; the state
  returned with the error holds what had been emitted before.
\<close>

function burg_loop ::
  "bool \<Rightarrow> nat \<Rightarrow> nat \<Rightarrow> nat \<Rightarrow> burg_state \<Rightarrow> burg_state \<times> error option" where
  "burg_loop hierarchy N maxorder kp1 st =
     (if kp1 \<le> maxorder then
        (case burg_update kp1 st of
           Inl e \<Rightarrow> (st, Some e)
         | Inr (mu, st1) \<Rightarrow>
             burg_loop hierarchy N maxorder (kp1 + 1)
               (burg_residuals N maxorder kp1 mu (burg_emit hierarchy maxorder kp1 st1)))
      else (st, None))"
  by pat_completeness auto
termination
  by (relation "measure (\<lambda>(h, N, maxorder, kp1, st). maxorder + 1 - kp1)") auto

declare burg_loop.simps [simp del]

subsection \<open>The entry point\<close>

text \<open>
  What the caller sees: the two reference parameters, the four output ranges, and either
  the returned count or the failure that ended the run.  \<open>mean\<close> is \<open>None\<close> as long as
  nothing was assigned to it.
\<close>

record burg_out =
  mean :: "rat option"
  maxorder :: "64 word"
  params_out :: "rat list"
  sigma2e_out :: "rat list"
  gain_out :: "rat list"
  autocor_out :: "rat list"
  ret :: "nat result"

text \<open>
  \<open>maxorder\<close> is a \<open>std::size_t\<close>, here 64 bits wide, and
  \<open>min(maxorder + 1, N) - 1\<close> is computed in that type.  \<open>N\<close> is the length of the
  data, a \<open>nat\<close>; a vector holds fewer than \<open>2 ^ 64\<close> elements.  Inside the loop the
  subscripts are plain list accesses: they are in range once \<open>Ak[0] = 1\<close> has succeeded,
  since then \<open>loop_inv\<close> below holds at the loop test and \<open>burg_step\<close> keeps it.
\<close>

definition burg_method :: "rat list \<Rightarrow> 64 word \<Rightarrow> bool \<Rightarrow> bool \<Rightarrow> burg_out" where
  "burg_method data maxorder_in subtract_mean hierarchy =
     (let fv = data;
          N = length fv;
          bv = pairwise_sum fv;
          out0 = \<lparr>mean = None, maxorder = maxorder_in, params_out = [], sigma2e_out = [],
                  gain_out = [], autocor_out = [], ret = Inr N\<rparr>
      in
      case subscript bv 0 of Inl e \<Rightarrow> out0\<lparr>ret := Inl e\<rparr> | Inr b0 \<Rightarrow>
      case vdiv b0 (of_nat N) of Inl e \<Rightarrow> out0\<lparr>ret := Inl e\<rparr> | Inr m \<Rightarrow>
      let out1 = out0\<lparr>mean := Some m, maxorder := min (maxorder_in + 1) (of_nat N) - 1\<rparr> in
      if maxorder out1 = 0 then out1
      else
        let fv = (if subtract_mean then map (\<lambda>x. x - m) fv else fv);
            sigma2e0 = inner_product fv fv 0
        in
        case subscript fv 0 of Inl e \<Rightarrow> out1\<lparr>ret := Inl e\<rparr> | Inr f0 \<Rightarrow>
        case subscript fv (N - 1) of Inl e \<Rightarrow> out1\<lparr>ret := Inl e\<rparr> | Inr fl \<Rightarrow>
        let Dk0 = - f0 * f0 - fl * fl + 2 * sigma2e0 in
        case vdiv sigma2e0 (of_nat N) of Inl e \<Rightarrow> out1\<lparr>ret := Inl e\<rparr> | Inr sigma2e1 \<Rightarrow>
        let A = replicate (unat (maxorder out1 + 1)) 0 in
        if A = [] then out1\<lparr>ret := Inl OutOfRange\<rparr>
        else
          case burg_loop hierarchy N (unat (maxorder out1)) 1
                 \<lparr>f = fv, b = fv, Ak = A[0 := 1], Dk = Dk0, sigma2e = sigma2e1, gain = 1,
                  autocor = [], params_first = [], sigma2e_first = [], gain_first = []\<rparr>
          of
            (st, Some e) \<Rightarrow>
              out1\<lparr>params_out := params_first st, sigma2e_out := sigma2e_first st,
                   gain_out := gain_first st, ret := Inl e\<rparr>
          | (st, None) \<Rightarrow>
              out1\<lparr>params_out := params_first st, sigma2e_out := sigma2e_first st,
                   gain_out := gain_first st, autocor_out := autocor st\<rparr>)"

section \<open>Empirical variances\<close>

datatype mean_handling = mean_subtracted | mean_retained

datatype estimation_method =
  YuleWalker mean_handling | Burg mean_handling | LSFB mean_handling | LSF mean_handling

text \<open>
  \<open>Integer1\<close> and \<open>Integer2\<close> are \<open>std::size_t\<close>, the default of the three adapters,
  64 bits wide; \<open>Result\<close> is the rationals.  \<open>of_size\<close> is the conversion of an integer
  to \<open>Result\<close>.
\<close>

definition of_size :: "64 word \<Rightarrow> rat" where
  "of_size n = of_nat (unat n)"

fun empirical_variance_zero :: "mean_handling \<Rightarrow> 64 word \<Rightarrow> rat result" where
  "empirical_variance_zero mean_subtracted N =
     (if \<not> 1 \<le> N then Inl AssertionFailed else vdiv 1 (of_size N))"
| "empirical_variance_zero mean_retained N = Inr 0"

text \<open>
  The integer subexpressions \<open>N - i\<close>, \<open>N*(N + 2)\<close>, \<open>N + 1 - i\<close> and \<open>N + 2 - 2*i\<close>
  are evaluated in \<open>std::size_t\<close> before they are converted; the denominator of \<open>LSFB\<close>
  is evaluated in \<open>Result\<close>.
\<close>

fun empirical_variance :: "estimation_method \<Rightarrow> 64 word \<Rightarrow> 64 word \<Rightarrow> rat result" where
  "empirical_variance (YuleWalker mh) N i =
     (if \<not> (1 \<le> N \<and> i \<le> N) then Inl AssertionFailed
      else if i = 0 then empirical_variance_zero mh N
      else vdiv (of_size (N - i)) (of_size (N * (N + 2))))"
| "empirical_variance (Burg mh) N i =
     (if \<not> (1 \<le> N \<and> i \<le> N) then Inl AssertionFailed
      else if i = 0 then empirical_variance_zero mh N
      else vdiv 1 (of_size (N + 1 - i)))"
| "empirical_variance (LSFB mh) N i =
     (if \<not> (1 \<le> N \<and> i \<le> N) then Inl AssertionFailed
      else if i = 0 then empirical_variance_zero mh N
      else vdiv 1 (of_size N + 3 / 2 - 3 / 2 * of_size i))"
| "empirical_variance (LSF mh) N i =
     (if \<not> (1 \<le> N \<and> i \<le> N) then Inl AssertionFailed
      else if i = 0 then empirical_variance_zero mh N
      else vdiv 1 (of_size (N + 2 - 2 * i)))"

subsection \<open>The table of the specification\<close>

text \<open>
  The table of section 4.4 of the specification, in its own words and over the rationals:
  the row for \<open>i = 0\<close> and, per method, the entry for \<open>i \<ge> 1\<close>.  It is the reference
  the code is compared with.
\<close>

fun variance_zero_row :: "mean_handling \<Rightarrow> nat \<Rightarrow> rat" where
  "variance_zero_row mean_subtracted N = 1 / of_nat N"
| "variance_zero_row mean_retained N = 0"

fun variance_table :: "estimation_method \<Rightarrow> nat \<Rightarrow> nat \<Rightarrow> rat" where
  "variance_table (YuleWalker mh) N i =
     (if i = 0 then variance_zero_row mh N
      else (of_nat N - of_nat i) / (of_nat N * (of_nat N + 2)))"
| "variance_table (Burg mh) N i =
     (if i = 0 then variance_zero_row mh N else 1 / (of_nat N + 1 - of_nat i))"
| "variance_table (LSFB mh) N i =
     (if i = 0 then variance_zero_row mh N else 1 / (of_nat N + 3 / 2 - 3 * of_nat i / 2))"
| "variance_table (LSF mh) N i =
     (if i = 0 then variance_zero_row mh N else 1 / (of_nat N + 2 - 2 * of_nat i))"

text \<open>
  Where the code and the table can be compared: the product \<open>N (N + 2)\<close> of
  \<open>YuleWalker\<close> fits \<open>std::size_t\<close>, the denominator of \<open>LSFB\<close> is not zero, and the
  denominator \<open>N + 2 - 2 i\<close> of \<open>LSF\<close> is positive.
\<close>

fun table_applies :: "estimation_method \<Rightarrow> nat \<Rightarrow> nat \<Rightarrow> bool" where
  "table_applies (YuleWalker mh) N i = (i = 0 \<or> N * (N + 2) < 2 ^ 64)"
| "table_applies (Burg mh) N i = True"
| "table_applies (LSFB mh) N i = (i = 0 \<or> 3 * i \<noteq> 2 * N + 3)"
| "table_applies (LSF mh) N i = (i = 0 \<or> 2 * i < N + 2)"

subsection \<open>The forward iterator\<close>

text \<open>
  The two data members.  \<open>it_i = None\<close> is a member whose value is indeterminate.
\<close>

record empirical_variance_iterator =
  it_N :: "64 word"
  it_i :: "64 word option"

text \<open>
  The private constructor \<open>empirical_variance_iterator(Integer1 N, Integer2) : N(N), i(i) {}\<close>:
  its second parameter has no name, so \<open>i(i)\<close> initialises the member from itself.
\<close>

definition iterator_private :: "64 word \<Rightarrow> 64 word \<Rightarrow> empirical_variance_iterator" where
  "iterator_private N unnamed = \<lparr>it_N = N, it_i = None\<rparr>"

text \<open>The default constructor, the past-end iterator.\<close>

definition iterator_end :: empirical_variance_iterator where
  "iterator_end = \<lparr>it_N = 0, it_i = Some 1\<rparr>"

text \<open>The public constructor \<open>empirical_variance_iterator(Integer1 N)\<close>.\<close>

definition iterator_begin :: "64 word \<Rightarrow> empirical_variance_iterator result" where
  "iterator_begin N = (if \<not> 1 \<le> N then Inl AssertionFailed else Inr \<lparr>it_N = N, it_i = Some 0\<rparr>)"

text \<open>\<open>operator++()\<close>: the iterator after the increment.\<close>

definition pre_increment :: "empirical_variance_iterator \<Rightarrow> empirical_variance_iterator result" where
  "pre_increment it =
     (if \<not> 1 \<le> it_N it then Inl AssertionFailed
      else case it_i it of None \<Rightarrow> Inl Indeterminate
           | Some i \<Rightarrow> Inr (it\<lparr>it_i := Some (i + 1)\<rparr>))"

text \<open>
  \<open>operator++(int)\<close>, \<open>return empirical_variance_iterator(N, i++)\<close>: the returned
  iterator first, the iterator itself after the call second.
\<close>

definition post_increment ::
  "empirical_variance_iterator \<Rightarrow> (empirical_variance_iterator \<times> empirical_variance_iterator) result" where
  "post_increment it =
     (if \<not> 1 \<le> it_N it then Inl AssertionFailed
      else case it_i it of None \<Rightarrow> Inl Indeterminate
           | Some i \<Rightarrow> Inr (iterator_private (it_N it) i, it\<lparr>it_i := Some (i + 1)\<rparr>))"

text \<open>
  \<open>operator==\<close>.  In its last branch \<open>this->N == other.N && this->i == other.i\<close> reads
  the cursors only when the sample sizes agree.
\<close>

definition iterator_eq ::
  "empirical_variance_iterator \<Rightarrow> empirical_variance_iterator \<Rightarrow> bool result" where
  "iterator_eq this other =
     (if it_N this = 0 then
        (case it_i other of None \<Rightarrow> Inl Indeterminate | Some j \<Rightarrow> Inr (j = it_N other + 1))
      else if it_N other = 0 then
        (case it_i this of None \<Rightarrow> Inl Indeterminate | Some i \<Rightarrow> Inr (i = it_N this + 1))
      else if it_N this \<noteq> it_N other then Inr False
      else
        (case (it_i this, it_i other) of
           (Some i, Some j) \<Rightarrow> Inr (i = j)
         | _ \<Rightarrow> Inl Indeterminate))"

text \<open>\<open>operator*\<close>.\<close>

definition dereference :: "estimation_method \<Rightarrow> empirical_variance_iterator \<Rightarrow> rat result" where
  "dereference m it =
     (case it_i it of None \<Rightarrow> Inl Indeterminate
      | Some i \<Rightarrow> if \<not> i \<le> it_N it then Inl AssertionFailed
                  else empirical_variance m (it_N it) i)"

text \<open>
  The traversal \<open>while (it != end) out.push_back(*it++)\<close> of a caller, unfolded at most
  \<open>fuel\<close> times.
\<close>

fun traverse ::
  "estimation_method \<Rightarrow> nat \<Rightarrow> empirical_variance_iterator \<Rightarrow> rat list \<Rightarrow> rat list result" where
  "traverse m 0 it acc = Inl OutOfFuel"
| "traverse m (Suc fuel) it acc =
     (case iterator_eq it iterator_end of Inl e \<Rightarrow> Inl e
      | Inr True \<Rightarrow> Inr acc
      | Inr False \<Rightarrow>
          (case post_increment it of Inl e \<Rightarrow> Inl e
           | Inr (old, it') \<Rightarrow>
               (case dereference m old of Inl e \<Rightarrow> Inl e
                | Inr v \<Rightarrow> traverse m fuel it' (acc @ [v]))))"

section \<open>Quantities of the analysis\<close>

text \<open>
  The sum of squares that \<open>Dk\<close> tracks at order \<open>k\<close>, and the sum of products that the
  inner product of \<open>f[k..N)\<close> with \<open>b\<close> computes.
\<close>

definition energy :: "nat \<Rightarrow> nat \<Rightarrow> rat list \<Rightarrow> rat list \<Rightarrow> rat" where
  "energy N k fv bv = (\<Sum>n<N - k. fv ! (n + k) * fv ! (n + k) + bv ! n * bv ! n)"

definition cross :: "nat \<Rightarrow> nat \<Rightarrow> rat list \<Rightarrow> rat list \<Rightarrow> rat" where
  "cross N k fv bv = (\<Sum>n<N - k. fv ! (n + k) * bv ! n)"

text \<open>
  What holds of the local variables whenever the loop test \<open>kp1 <= maxorder\<close> is evaluated
  with \<open>kp1 = k\<close> and \<open>maxorder = m\<close>.
\<close>

definition loop_inv :: "nat \<Rightarrow> nat \<Rightarrow> nat \<Rightarrow> burg_state \<Rightarrow> bool" where
  "loop_inv N m k st =
     (length (f st) = N \<and> length (b st) = N \<and> length (Ak st) = m + 1 \<and>
      length (autocor st) + 1 = k \<and>
      (k \<le> m \<longrightarrow> Dk st = energy N k (f st) (b st)) \<and> 0 \<le> sigma2e st)"

text \<open>The local variables without the three output ranges.\<close>

definition core :: "burg_state \<Rightarrow> rat list \<times> rat list \<times> rat list \<times> rat \<times> rat \<times> rat \<times> rat list" where
  "core st = (f st, b st, Ak st, Dk st, sigma2e st, gain st, autocor st)"

text \<open>
  A sequence of nonnegative values in which each element is its predecessor times
  \<open>1 - mu\<^sup>2\<close> for some \<open>mu\<close> with \<open>mu\<^sup>2 \<le> 1\<close>, and is therefore not larger.
\<close>

definition descending_chain :: "rat list \<Rightarrow> bool" where
  "descending_chain xs =
     ((\<forall>v \<in> set xs. 0 \<le> v) \<and>
      (\<forall>j. Suc j < length xs \<longrightarrow>
         xs ! Suc j \<le> xs ! j \<and> (\<exists>mu. mu * mu \<le> 1 \<and> xs ! Suc j = xs ! j * (1 - mu * mu))))"

text \<open>The value assigned to \<open>maxorder\<close>, as a function of the request and of \<open>N\<close>.\<close>

definition effective_order :: "64 word \<Rightarrow> nat \<Rightarrow> 64 word" where
  "effective_order p N = min (p + 1) (of_nat N) - 1"

text \<open>
  The local variables when the loop is entered, for a nonempty input with mean
  \<open>sum x / N\<close> and \<open>maxorder = m\<close>.
\<close>

definition burg_start :: "rat list \<Rightarrow> bool \<Rightarrow> nat \<Rightarrow> burg_state" where
  "burg_start x sm m =
     (let mu = sum_list x / of_nat (length x);
          fv = (if sm then map (\<lambda>v. v - mu) x else x);
          s0 = inner_product fv fv 0
      in \<lparr>f = fv, b = fv, Ak = (replicate (m + 1) 0)[0 := 1],
          Dk = - fv ! 0 * fv ! 0 - fv ! (length x - 1) * fv ! (length x - 1) + 2 * s0,
          sigma2e = s0 / of_nat (length x), gain = 1, autocor = [],
          params_first = [], sigma2e_first = [], gain_first = []\<rparr>)"

text \<open>
  The loop of \<open>burg_method\<close> cut after the iteration \<open>kp1 = j\<close>, with the same body and the
  same \<open>maxorder = m\<close> inside it: its state is what the local variables are when the
  \<open>j\<close>-th iteration has ended, and \<open>Ak[1..j]\<close> of that state are the coefficients
  \<open>a\<^sub>1, ..., a\<^sub>j\<close> of the model of order \<open>j\<close>.
\<close>

function burg_upto ::
  "bool \<Rightarrow> nat \<Rightarrow> nat \<Rightarrow> nat \<Rightarrow> nat \<Rightarrow> burg_state \<Rightarrow> burg_state \<times> error option" where
  "burg_upto hierarchy N m j kp1 st =
     (if kp1 \<le> j then
        (case burg_update kp1 st of
           Inl e \<Rightarrow> (st, Some e)
         | Inr (mu, st1) \<Rightarrow>
             burg_upto hierarchy N m j (kp1 + 1)
               (burg_residuals N m kp1 mu (burg_emit hierarchy m kp1 st1)))
      else (st, None))"
  by pat_completeness auto
termination
  by (relation "measure (\<lambda>(h, N, m, j, kp1, st). j + 1 - kp1)") auto

declare burg_upto.simps [simp del]

text \<open>
  Two states of the recursion that agree on every local variable, except that the first
  holds only the entries \<open>Ak[0..K]\<close> of the second: the state of a run with
  \<open>maxorder = K\<close> beside the state of a run with a larger \<open>maxorder\<close>, while
  \<open>kp1 \<le> K\<close>.
\<close>

definition same_upto :: "nat \<Rightarrow> burg_state \<Rightarrow> burg_state \<Rightarrow> bool" where
  "same_upto K st st' =
     (f st = f st' \<and> b st = b st' \<and> Dk st = Dk st' \<and> sigma2e st = sigma2e st' \<and>
      gain st = gain st' \<and> autocor st = autocor st' \<and>
      K < length (Ak st') \<and> Ak st = take (K + 1) (Ak st'))"

section \<open>Zohar's working vectors\<close>

text \<open>
  At level \<open>i\<close> the vectors \<open>s\<close>, \<open>ehat\<close> and \<open>g\<close> hold \<open>i\<close> elements each, and a level
  that succeeds leaves \<open>i + 1\<close>: the plain subscripts \<open>j < i\<close> of the sweep are in range.
\<close>

lemma zohar_sweep_lengths:
  "case zohar_sweep eh t e c i (sv, ne, gv) of (sv', ne', gv') \<Rightarrow>
     length sv' = length sv \<and> length ne' = length ne + i \<and> length gv' = length gv"
proof (induction i)
  case 0
  show ?case by (simp add: zohar_sweep_def)
next
  case (Suc i)
  then show ?case
    by (simp add: zohar_sweep_def split: prod.splits)
qed

lemma zohar_step_lengths:
  assumes "zohar_step a r d i st = Inr st'"
    and "length (s st) = i" "length (ehat st) = i" "length (g st) = i"
  shows "length (s st') = i + 1 \<and> length (ehat st') = i + 1 \<and> length (g st') = i + 1"
proof -
  have "length sv' = i \<and> length ne' = 1 + i \<and> length gv' = i"
    if "zohar_sweep (ehat st) t e c i (s st, [e], g st) = (sv', ne', gv')" for t e c sv' ne' gv'
    using zohar_sweep_lengths [where eh = "ehat st" and t = t and e = e and c = c and i = i
        and sv = "s st" and ne = "[e]" and gv = "g st"] that assms(2,4) by simp
  with assms(1) show ?thesis
    by (auto simp: zohar_step_def Let_def split: sum.splits prod.splits)
qed

section \<open>The explicit error\<close>

lemma vdiv_not_invalid: "vdiv x y \<noteq> Inl InvalidArgument"
  by (simp add: vdiv_def)

lemma subscript_not_invalid: "subscript v i \<noteq> Inl InvalidArgument"
  by (simp add: subscript_def)

lemma zohar_step_not_invalid: "zohar_step a r d i st \<noteq> Inl InvalidArgument"
  by (auto simp: zohar_step_def Let_def vdiv_def subscript_def split: sum.splits prod.splits if_splits)

lemma zohar_loop_not_invalid: "zohar_loop a r d n i st \<noteq> Inl InvalidArgument"
proof (induction a r d n i st rule: zohar_loop.induct)
  case (1 a r d n i st)
  show ?case
  proof (cases "i < n")
    case False
    then show ?thesis by (simp add: zohar_loop.simps)
  next
    case True
    show ?thesis
    proof (cases "zohar_step a r d i st")
      case (Inl e)
      with True zohar_step_not_invalid [of a r d i st] show ?thesis
        by (simp add: zohar_loop.simps [of a r d n i st])
    next
      case (Inr st')
      with True "1.IH" [of st'] show ?thesis
        by (simp add: zohar_loop.simps [of a r d n i st])
    qed
  qed
qed

lemma zohar_last_not_invalid: "zohar_last r d n st \<noteq> Inl InvalidArgument"
  by (auto simp: zohar_last_def Let_def vdiv_def subscript_def split: sum.splits if_splits)



lemma burg_update_not_invalid: "burg_update kp1 st \<noteq> Inl InvalidArgument"
  by (auto simp: burg_update_def Let_def vdiv_def split: sum.splits if_splits)

lemma burg_loop_stop: "\<not> kp1 \<le> m \<Longrightarrow> burg_loop h N m kp1 st = (st, None)"
  by (subst burg_loop.simps) simp

lemma burg_loop_error:
  "kp1 \<le> m \<Longrightarrow> burg_update kp1 st = Inl e \<Longrightarrow>
   burg_loop h N m kp1 st = (st, Some e)"
  by (subst burg_loop.simps) simp

lemma burg_loop_step:
  "kp1 \<le> m \<Longrightarrow> burg_update kp1 st = Inr (mu, st1) \<Longrightarrow>
   burg_loop h N m kp1 st =
   burg_loop h N m (kp1 + 1) (burg_residuals N m kp1 mu (burg_emit h m kp1 st1))"
  by (subst burg_loop.simps) simp

lemma burg_loop_not_invalid: "snd (burg_loop h N m k st) \<noteq> Some InvalidArgument"
proof (induction h N m k st rule: burg_loop.induct)
  case (1 h N m k st)
  show ?case
  proof (cases "k \<le> m")
    case False
    then show ?thesis by (simp add: burg_loop_stop)
  next
    case True
    show ?thesis
    proof (cases "burg_update k st")
      case (Inl e)
      with True burg_update_not_invalid [of k st] show ?thesis
        by (auto simp: burg_loop_error)
    next
      case (Inr p)
      obtain mu st1 where p: "p = (mu, st1)" by (cases p)
      have "snd (burg_loop h N m (k + 1) (burg_residuals N m k mu (burg_emit h m k st1)))
              \<noteq> Some InvalidArgument"
        using "1.IH" [OF True Inr p [symmetric]] .
      with True Inr p show ?thesis
        by (simp add: burg_loop_step)
    qed
  qed
qed

lemma burg_loop_error_not_invalid:
  "burg_loop h N m k st = (st', Some e) \<Longrightarrow> e \<noteq> InvalidArgument"
  using burg_loop_not_invalid [of h N m k st] by auto

lemma burg_method_not_invalid: "ret (burg_method x p sm h) \<noteq> Inl InvalidArgument"
  unfolding burg_method_def Let_def
  by (simp add: subscript_def vdiv_def burg_loop_error_not_invalid
      split: sum.split prod.split option.split)

lemma empirical_variance_zero_not_invalid: "empirical_variance_zero mh N \<noteq> Inl InvalidArgument"
  by (cases mh) (simp_all add: vdiv_def)

lemma empirical_variance_not_invalid: "empirical_variance m N i \<noteq> Inl InvalidArgument"
  by (cases m) (simp_all add: vdiv_def empirical_variance_zero_not_invalid)

text \<open>
  Claim C6.  \<open>zohar_linear_solve\<close> raises the invalid-argument error exactly when
  \<open>distance(a_first, a_last) < 1\<close>; for a problem of size at least one it never does.
  No other entry point of the library raises it: neither \<open>burg_method\<close> nor any
  \<open>empirical_variance\<close> ends in \<open>InvalidArgument\<close>.
\<close>

theorem invalid_argument_only_explicit_error:
  "(zohar_linear_solve a r d = Inl InvalidArgument) = (length a < 1) \<and>
   ret (burg_method x p sm h) \<noteq> Inl InvalidArgument \<and>
   empirical_variance m N i \<noteq> Inl InvalidArgument"
proof -
  have "(zohar_linear_solve a r d = Inl InvalidArgument) = (length a < 1)"
    using zohar_loop_not_invalid zohar_last_not_invalid
    by (auto simp: zohar_linear_solve_def Let_def subscript_def split: sum.splits if_splits)
  then show ?thesis
    using burg_method_not_invalid empirical_variance_not_invalid by blast
qed

section \<open>The symmetric identity system\<close>

text \<open>
  Claim C5.  The symmetric overload with \<open>a = [0, 0, 0]\<close>, so that the matrix is the
  \<open>4 \<times> 4\<close> identity, and \<open>d = [1, 2, 3, 4]\<close> leaves \<open>[1, 2, 3, 4]\<close> in the output
  range.
\<close>

theorem zohar_symmetric_identity:
  "zohar_linear_solve_symmetric [0, 0, 0] [1, 2, 3, 4] = Inr [1, 2, 3, 4]"
  by code_simp

section \<open>Burg's method on the empty range\<close>

lemma pairwise_sum_Nil: "pairwise_sum [] = []"
  by (simp add: pairwise_sum_def first_pass_def pow2_loop.simps [of 0] halving_loop.simps [of 0])

text \<open>
  Claim C7.  On the empty range the vector \<open>b\<close> has no element, and \<open>mean = b[0] / N\<close>
  reads \<open>b[0]\<close>: the run ends in an out-of-range access before \<open>mean\<close> and \<open>maxorder\<close>
  are written.  Nothing is emitted.
\<close>

theorem burg_empty_input_out_of_range:
  "burg_method [] p sm h =
     \<lparr>mean = None, maxorder = p, params_out = [], sigma2e_out = [], gain_out = [],
      autocor_out = [], ret = Inl OutOfRange\<rparr>"
  unfolding burg_method_def Let_def pairwise_sum_Nil by (simp add: subscript_def)

section \<open>The iterator under post-increment\<close>

text \<open>
  Claim C9.  For \<open>1 \<le> N < 2 ^ 64 - 1\<close>, post-increment of the start iterator hands back
  an iterator made by the private constructor, whose cursor is indeterminate and not the
  value before the increment; the iterator itself advances by one.  Dereferencing the copy
  reads the indeterminate cursor, so a traversal by \<open>*it++\<close> fails at its first element
  instead of yielding \<open>v\<^sub>0(N), ..., v\<^sub>N(N)\<close>.
\<close>

theorem post_increment_copy_indeterminate:
  assumes "1 \<le> N" "N + 1 \<noteq> 0"
  shows "iterator_begin N = Inr \<lparr>it_N = N, it_i = Some 0\<rparr> \<and>
         post_increment \<lparr>it_N = N, it_i = Some 0\<rparr> =
           Inr (\<lparr>it_N = N, it_i = None\<rparr>, \<lparr>it_N = N, it_i = Some 1\<rparr>) \<and>
         dereference m \<lparr>it_N = N, it_i = None\<rparr> = Inl Indeterminate \<and>
         traverse m (Suc fuel) \<lparr>it_N = N, it_i = Some 0\<rparr> [] = Inl Indeterminate"
proof -
  have ne: "0 \<noteq> N + 1" "N \<noteq> 0" using assms by auto
  then show ?thesis
    using assms(1)
    by (simp add: iterator_begin_def post_increment_def iterator_private_def dereference_def
        iterator_eq_def iterator_end_def)
qed

text \<open>Sample size one, method \<open>Burg\<close>, three unfoldings of the loop.\<close>

theorem post_increment_copy_indeterminate_witness:
  "(1 :: 64 word) \<le> 1 \<and> (1 :: 64 word) + 1 \<noteq> 0 \<and>
   post_increment \<lparr>it_N = 1, it_i = Some 0\<rparr> =
     Inr (\<lparr>it_N = 1, it_i = None\<rparr>, \<lparr>it_N = 1, it_i = Some 1\<rparr>) \<and>
   traverse (Burg mean_subtracted) 3 \<lparr>it_N = 1, it_i = Some 0\<rparr> [] = Inl Indeterminate"
  using post_increment_copy_indeterminate [of 1 "Burg mean_subtracted" 2]
  by (simp add: numeral_3_eq_3)

section \<open>Empirical variances against the table\<close>

lemma unat_bound64: "unat (w :: 64 word) < 18446744073709551616"
  using unsigned_less [of w, where ?'a = nat] by simp

lemma unat_add64:
  "unat (x + y :: 64 word) =
     (if unat x + unat y < 18446744073709551616 then unat x + unat y
      else unat x + unat y - 18446744073709551616)"
  using unat_plus_if' [of x y] by simp

lemma unat_sub64:
  "unat (x - y :: 64 word) =
     (if unat y \<le> unat x then unat x - unat y
      else unat x + 18446744073709551616 - unat y)"
  using unat_sub_if' [of x y] by simp

lemma unat_double64:
  "unat (2 * x :: 64 word) =
     (if 2 * unat x < 18446744073709551616 then 2 * unat x
      else 2 * unat x - 18446744073709551616)"
proof -
  have "2 * x = x + x" by simp
  then have "unat (2 * x) = unat (x + x)" by simp
  also have "\<dots> = (if unat x + unat x < 18446744073709551616 then unat x + unat x
      else unat x + unat x - 18446744073709551616)"
    by (rule unat_add64)
  also have "\<dots> = (if 2 * unat x < 18446744073709551616 then 2 * unat x
      else 2 * unat x - 18446744073709551616)"
    by (simp add: mult_2)
  finally show ?thesis .
qed

lemma one_le_word64: "(1 \<le> (w :: 64 word)) = (1 \<le> unat w)"
  by (simp add: word_le_nat_alt)

lemma burg_den_unat:
  assumes "1 \<le> i" "i \<le> (N :: 64 word)"
  shows "unat (N + 1 - i) = unat N + 1 - unat i"
  using assms unat_bound64 [of N] unat_bound64 [of i]
  by (simp add: unat_sub64 unat_add64 word_le_nat_alt split: if_splits) arith

lemma lsf_den_unat:
  assumes "1 \<le> i" "i \<le> (N :: 64 word)" "2 * unat i < unat N + 2"
  shows "unat (N + 2 - 2 * i) = unat N + 2 - 2 * unat i"
  using assms unat_bound64 [of N] unat_bound64 [of i]
  by (simp add: unat_sub64 unat_add64 unat_double64 word_le_nat_alt split: if_splits) arith

lemma lsf_den_zero_iff:
  assumes "1 \<le> i" "i \<le> (N :: 64 word)"
  shows "(N + 2 - 2 * i = 0) = (2 * unat i = unat N + 2)"
proof -
  have "(N + 2 - 2 * i = 0) = (unat (N + 2 - 2 * i) = 0)"
    by (simp add: unat_eq_0)
  also have "\<dots> = (2 * unat i = unat N + 2)"
    using assms unat_bound64 [of N] unat_bound64 [of i]
    by (simp add: unat_sub64 unat_add64 unat_double64 word_le_nat_alt split: if_splits) arith
  finally show ?thesis .
qed

lemma yw_den_unat:
  assumes "unat N * (unat N + 2) < 18446744073709551616"
  shows "unat (N * (N + 2) :: 64 word) = unat N * (unat N + 2)"
proof -
  have le: "unat N + 2 \<le> unat N * (unat N + 2) \<or> unat N = 0"
    by (cases "unat N") auto
  have a: "unat (N + 2) = unat N + 2"
    using assms le unat_bound64 [of N] by (auto simp: unat_add64)
  have "unat N * unat (N + 2) < 2 ^ LENGTH(64)"
    using assms a by simp
  then have "unat (N * (N + 2)) = unat N * unat (N + 2)"
    by (simp only: unat_mult_lem)
  with a show ?thesis by simp
qed

lemma of_size_eq_0_iff: "(of_size w = 0) = (unat w = 0)"
  by (simp add: of_size_def del: of_nat_unat)

lemma empirical_variance_zero_table:
  "1 \<le> N \<Longrightarrow> empirical_variance_zero mh N = Inr (variance_zero_row mh (unat N))"
  by (cases mh) (auto simp: vdiv_def of_size_def one_le_word64 simp del: of_nat_unat)

lemma lsfb_den_zero_iff:
  "(of_size N + 3 / 2 - 3 / 2 * of_size i = 0) = (3 * unat i = 2 * unat N + 3)"
proof -
  have "(of_size N + 3 / 2 - 3 / 2 * of_size i = 0)
        = (2 * (of_nat (unat N) :: rat) + 3 = 3 * of_nat (unat i))"
    by (simp add: of_size_def field_simps del: of_nat_unat) linarith
  also have "\<dots> = ((of_nat (2 * unat N + 3) :: rat) = of_nat (3 * unat i))"
    by (simp del: of_nat_unat)
  also have "\<dots> = (2 * unat N + 3 = 3 * unat i)"
    by (simp only: of_nat_eq_iff)
  finally show ?thesis by auto
qed

text \<open>
  Claim C8, as amended.  For \<open>N \<ge> 1\<close> and \<open>i \<le> N\<close> the code returns the entry of the
  table wherever \<open>table_applies\<close>: the row \<open>i = 0\<close> for every method, \<open>Burg\<close> for every
  \<open>i\<close>, \<open>YuleWalker\<close> while \<open>N (N + 2) < 2 ^ 64\<close>, \<open>LSFB\<close> unless \<open>3 i = 2 N + 3\<close>, and
  \<open>LSF\<close> while \<open>2 i < N + 2\<close>.
\<close>

theorem empirical_variance_table:
  assumes "1 \<le> N" "i \<le> N" "table_applies m (unat N) (unat i)"
  shows "empirical_variance m N i = Inr (variance_table m (unat N) (unat i))"
proof (cases "i = 0")
  case True
  with assms show ?thesis
    by (cases m) (simp_all add: empirical_variance_zero_table)
next
  case False
  then have i1: "1 \<le> i" and ui: "unat i \<noteq> 0" "1 \<le> unat i"
    by (simp_all add: one_le_word64 unat_eq_0 Suc_le_eq unat_gt_0)
  have le: "unat i \<le> unat N" using assms(2) by (simp add: word_le_nat_alt)
  show ?thesis
  proof (cases m)
    case (YuleWalker mh)
    with assms ui have lt: "unat N * (unat N + 2) < 18446744073709551616" by simp
    have "unat N \<noteq> 0" using le ui by simp
    then have nz: "of_size (N * (N + 2)) \<noteq> 0"
      by (simp add: of_size_eq_0_iff yw_den_unat [OF lt])
    have den: "of_size (N * (N + 2)) = of_nat (unat N) * (of_nat (unat N) + 2)"
      unfolding of_size_def yw_den_unat [OF lt] by (simp add: algebra_simps del: of_nat_unat)
    have num: "of_size (N - i) = of_nat (unat N) - of_nat (unat i)"
      using le by (simp add: of_size_def unat_sub [OF assms(2)] of_nat_diff del: of_nat_unat)
    have "empirical_variance m N i = vdiv (of_size (N - i)) (of_size (N * (N + 2)))"
      using assms False YuleWalker by simp
    also have "\<dots> = Inr (of_size (N - i) / of_size (N * (N + 2)))"
      using nz by (simp add: vdiv_def)
    also have "\<dots> = Inr (variance_table m (unat N) (unat i))"
      using ui YuleWalker by (simp only: num den variance_table.simps if_False)
    finally show ?thesis .
  next
    case (Burg mh)
    have d: "unat (N + 1 - i) = unat N + 1 - unat i"
      by (rule burg_den_unat [OF i1 assms(2)])
    show ?thesis
      using assms False Burg ui le
      by (simp add: vdiv_def of_size_def d of_nat_diff del: of_nat_unat)
  next
    case (LSFB mh)
    with assms ui have "3 * unat i \<noteq> 2 * unat N + 3" by simp
    then have nz: "of_size N + 3 / 2 - 3 / 2 * of_size i \<noteq> 0"
      by (simp only: lsfb_den_zero_iff) simp
    show ?thesis
      using assms False LSFB ui nz [unfolded of_size_def]
      by (simp add: vdiv_def of_size_def del: of_nat_unat)
  next
    case (LSF mh)
    with assms ui have lt: "2 * unat i < unat N + 2" by simp
    have d: "unat (N + 2 - 2 * i) = unat N + 2 - 2 * unat i"
      by (rule lsf_den_unat [OF i1 assms(2) lt])
    show ?thesis
      using assms False LSF ui lt
      by (simp add: vdiv_def of_size_def d of_nat_diff del: of_nat_unat)
  qed
qed

text \<open>The three values of the specification's scenario 6, from the theorem.\<close>

theorem empirical_variance_table_witness:
  "(1 :: 64 word) \<le> 100 \<and> (10 :: 64 word) \<le> 100 \<and> (0 :: 64 word) \<le> 100 \<and>
   table_applies (Burg mean_subtracted) 100 10 \<and> table_applies (LSF mean_subtracted) 100 10 \<and>
   table_applies (YuleWalker mean_retained) 100 0 \<and>
   empirical_variance (Burg mean_subtracted) 100 10 = Inr (1 / 91) \<and>
   empirical_variance (LSF mean_subtracted) 100 10 = Inr (1 / 82) \<and>
   empirical_variance (YuleWalker mean_retained) 100 0 = Inr 0"
  using empirical_variance_table [of 100 10 "Burg mean_subtracted"]
    empirical_variance_table [of 100 10 "LSF mean_subtracted"]
    empirical_variance_table [of 100 0 "YuleWalker mean_retained"]
  by simp

text \<open>
  The table does not hold at every \<open>(N, i)\<close> of the precondition: at \<open>N = 100\<close>,
  \<open>i = 60\<close> the \<open>std::size_t\<close> expression \<open>N + 2 - 2*i\<close> of \<open>LSF\<close> wraps to
  \<open>2 ^ 64 - 18\<close>, and at \<open>N = 2\<close>, \<open>i = 2\<close> it is zero.
\<close>

theorem empirical_variance_table_counterexample:
  "empirical_variance (LSF mean_subtracted) 100 60 \<noteq> Inr (1 / (100 + 2 - 2 * 60)) \<and>
   empirical_variance (LSF mean_subtracted) 2 2 = Inl DivisionByZero"
  by (simp add: vdiv_def of_size_def)

text \<open>
  Claim C10, as amended.  For \<open>N \<ge> 1\<close> and \<open>1 \<le> i \<le> N\<close> the division of \<open>LSF\<close> is by
  zero exactly when \<open>2 i = N + 2\<close>, and the division of \<open>LSFB\<close> exactly when
  \<open>3 i = 2 N + 3\<close>.
\<close>

theorem division_by_zero_iff:
  assumes "1 \<le> N" "1 \<le> i" "i \<le> N"
  shows "(empirical_variance (LSF mh) N i = Inl DivisionByZero) = (2 * unat i = unat N + 2) \<and>
         (empirical_variance (LSFB mh) N i = Inl DivisionByZero) = (3 * unat i = 2 * unat N + 3)"
proof -
  from assms have i0: "i \<noteq> 0" by auto
  have "(of_size (N + 2 - 2 * i) = 0) = (2 * unat i = unat N + 2)"
    using lsf_den_zero_iff [OF assms(2,3)] by (simp add: of_size_def unat_eq_0 del: of_nat_unat)
  moreover note lsfb_den_zero_iff [of N i]
  ultimately show ?thesis
    using assms i0 by (simp add: vdiv_def)
qed

text \<open>At \<open>N = 100\<close>, \<open>i = 10\<close> neither division is by zero.\<close>

theorem division_by_zero_iff_witness:
  "(1 :: 64 word) \<le> 100 \<and> (1 :: 64 word) \<le> 10 \<and> (10 :: 64 word) \<le> 100 \<and>
   empirical_variance (LSF mean_subtracted) 100 10 \<noteq> Inl DivisionByZero \<and>
   empirical_variance (LSFB mean_subtracted) 100 10 \<noteq> Inl DivisionByZero"
  using division_by_zero_iff [of 100 10 mean_subtracted] by simp

text \<open>
  Inside the precondition both divisions can be by zero: \<open>LSF\<close> at \<open>N = 2\<close>, \<open>i = 2\<close> and
  \<open>LSFB\<close> at \<open>N = 3\<close>, \<open>i = 3\<close>.
\<close>

theorem division_by_zero_counterexample:
  "(1 :: 64 word) \<le> 2 \<and> (2 :: 64 word) \<le> 2 \<and>
   empirical_variance (LSF mean_subtracted) 2 2 = Inl DivisionByZero \<and>
   (1 :: 64 word) \<le> 3 \<and> (3 :: 64 word) \<le> 3 \<and>
   empirical_variance (LSFB mean_subtracted) 3 3 = Inl DivisionByZero"
  by (simp add: vdiv_def of_size_def)

section \<open>The mean is exact\<close>

lemma sum_list_update_rat:
  "k < length xs \<Longrightarrow> sum_list (xs[k := v]) = sum_list xs - xs ! k + (v :: rat)"
  by (induction xs arbitrary: k) (auto split: nat.splits)

lemma first_pass_prefix:
  fixes fv bv :: "rat list"
  assumes "k \<le> length fv" "length bv = length fv"
  shows "length (fold (\<lambda>i bv. bv[i div 2 := bv ! (i div 2) + fv ! i]) [0..<k] bv) = length fv \<and>
         sum_list (fold (\<lambda>i bv. bv[i div 2 := bv ! (i div 2) + fv ! i]) [0..<k] bv)
           = sum_list bv + sum_list (take k fv) \<and>
         (\<forall>j. (k + 1) div 2 \<le> j \<longrightarrow>
              fold (\<lambda>i bv. bv[i div 2 := bv ! (i div 2) + fv ! i]) [0..<k] bv ! j = bv ! j)"
  using assms
proof (induction k)
  case 0
  then show ?case by simp
next
  case (Suc k)
  let ?b = "fold (\<lambda>i bv. bv[i div 2 := bv ! (i div 2) + fv ! i]) [0..<k] bv"
  from Suc have IH: "length ?b = length fv" "sum_list ?b = sum_list bv + sum_list (take k fv)"
    "\<And>j. (k + 1) div 2 \<le> j \<Longrightarrow> ?b ! j = bv ! j"
    by auto
  from Suc.prems have k: "k < length fv" by simp
  then have k2: "k div 2 < length ?b" using IH(1) by auto
  have step: "fold (\<lambda>i bv. bv[i div 2 := bv ! (i div 2) + fv ! i]) [0..<Suc k] bv
                = ?b[k div 2 := ?b ! (k div 2) + fv ! k]"
    by simp
  have s: "sum_list (?b[k div 2 := ?b ! (k div 2) + fv ! k]) = sum_list ?b + fv ! k"
    using k2 by (simp add: sum_list_update_rat)
  have t: "sum_list (take (Suc k) fv) = sum_list (take k fv) + fv ! k"
    using k by (simp add: take_Suc_conv_app_nth)
  have z: "\<And>j. (Suc k + 1) div 2 \<le> j \<Longrightarrow> (?b[k div 2 := ?b ! (k div 2) + fv ! k]) ! j = bv ! j"
  proof -
    fix j assume j: "(Suc k + 1) div 2 \<le> j"
    then have "j \<noteq> k div 2" "(k + 1) div 2 \<le> j" by auto
    then show "(?b[k div 2 := ?b ! (k div 2) + fv ! k]) ! j = bv ! j"
      using IH(3) by simp
  qed
  show ?case
    unfolding step using IH(1) s t z IH(2) by simp
qed

lemma first_pass_sum:
  "length (first_pass fv (replicate (length fv) 0)) = length fv \<and>
   sum_list (first_pass fv (replicate (length fv) 0)) = sum_list fv \<and>
   (\<forall>j. (length fv + 1) div 2 \<le> j \<longrightarrow> j < length fv \<longrightarrow>
        first_pass fv (replicate (length fv) 0) ! j = 0)"
proof -
  have z: "sum_list (replicate (length fv) (0 :: rat)) = 0" by (simp add: sum_list_replicate)
  show ?thesis
    using first_pass_prefix [of "length fv" fv "replicate (length fv) 0"]
    unfolding first_pass_def z by simp
qed

lemma pow2_loop_bounds:
  "1 \<le> t \<Longrightarrow> (\<exists>a. i = 2 ^ a) \<Longrightarrow> i * t \<le> N \<Longrightarrow> N < i * (t + 1) \<Longrightarrow>
   (\<exists>a. pow2_loop t i = 2 ^ a) \<and> pow2_loop t i \<le> N \<and> N < 2 * pow2_loop t i"
proof (induction t i rule: pow2_loop.induct)
  case (1 t i)
  show ?case
  proof (cases "t div 2 \<noteq> 0")
    case False
    with "1.prems" have "t = 1" by auto
    with False "1.prems" show ?thesis
      by (subst pow2_loop.simps, subst pow2_loop.simps, subst pow2_loop.simps) auto
  next
    case True
    obtain a where a: "i = 2 ^ a" using "1.prems" by auto
    have p1: "1 \<le> t div 2" using True by simp
    have p2: "\<exists>a. i * 2 = 2 ^ a" using a by (intro exI [of _ "Suc a"]) simp
    have "2 * (t div 2) \<le> t" by simp
    then have "i * (2 * (t div 2)) \<le> i * t" by (rule mult_le_mono2)
    then have "i * (2 * (t div 2)) \<le> N" using "1.prems"(3) by (rule order_trans)
    then have p3: "i * 2 * (t div 2) \<le> N" by (simp only: mult.assoc)
    have "t + 1 \<le> 2 * (t div 2 + 1)" by presburger
    then have "i * (t + 1) \<le> i * (2 * (t div 2 + 1))" by (rule mult_le_mono2)
    with "1.prems"(4) have "N < i * (2 * (t div 2 + 1))" by (rule less_le_trans)
    then have p4: "N < i * 2 * (t div 2 + 1)" by (simp only: mult.assoc)
    have eq: "pow2_loop t i = pow2_loop (t div 2) (i * 2)"
      using True by (subst pow2_loop.simps) simp
    show ?thesis
      unfolding eq by (rule "1.IH" [OF True p1 p2 p3 p4])
  qed
qed

lemma pow2_loop_start:
  assumes "1 \<le> N"
  shows "(\<exists>a. pow2_loop N 1 = 2 ^ a) \<and> pow2_loop N 1 \<le> N \<and> N < 2 * pow2_loop N 1"
  using pow2_loop_bounds [of N 1 N] assms by (simp add: exI [of _ 0])

lemma fold_pairs_nth:
  fixes bv :: "rat list"
  assumes "2 * h \<le> length bv"
  shows "length (fold_pairs h bv) = length bv \<and>
         (\<forall>j. fold_pairs h bv ! j = (if j < h then bv ! (2 * j) + bv ! (2 * j + 1) else bv ! j))"
  using assms
proof (induction h)
  case 0
  show ?case by (simp add: fold_pairs_def)
next
  case (Suc h)
  let ?b = "fold_pairs h bv"
  from Suc have IH: "length ?b = length bv"
    "\<And>j. ?b ! j = (if j < h then bv ! (2 * j) + bv ! (2 * j + 1) else bv ! j)"
    by auto
  have step: "fold_pairs (Suc h) bv = ?b[h := ?b ! (2 * h) + ?b ! (2 * h + 1)]"
    by (simp add: fold_pairs_def)
  have h: "h < length ?b" using Suc.prems IH(1) by simp
  have r: "?b ! (2 * h) = bv ! (2 * h)" "?b ! (2 * h + 1) = bv ! (2 * h + 1)"
    using IH(2) by simp_all
  show ?case
    unfolding step r using IH h by (auto simp: nth_list_update less_Suc_eq)
qed

lemma sum_pairs:
  "(\<Sum>j<h. v (2 * j) + v (2 * j + 1)) = (\<Sum>j<2 * (h :: nat). (v j :: rat))"
  by (induction h) simp_all

lemma fold_pairs_sum:
  fixes bv :: "rat list"
  assumes "2 * h \<le> length bv"
  shows "(\<Sum>j<h. fold_pairs h bv ! j) = (\<Sum>j<2 * h. bv ! j)"
proof -
  have "(\<Sum>j<h. fold_pairs h bv ! j) = (\<Sum>j<h. bv ! (2 * j) + bv ! (2 * j + 1))"
    using fold_pairs_nth [OF assms] by simp
  then show ?thesis by (simp only: sum_pairs)
qed

lemma halving_loop_sum:
  fixes bv :: "rat list"
  shows "i = 2 ^ a \<Longrightarrow> i \<le> length bv \<Longrightarrow>
         length (halving_loop i bv) = length bv \<and> halving_loop i bv ! 0 = (\<Sum>j<i. bv ! j)"
proof (induction a arbitrary: i bv)
  case 0
  then show ?case by (subst halving_loop.simps, subst halving_loop.simps) simp
next
  case (Suc a)
  let ?h = "i div 2"
  have h: "?h = 2 ^ a" "i = 2 * ?h" "?h \<noteq> 0" using Suc.prems(1) by simp_all
  have len: "2 * ?h \<le> length bv" using h(2) Suc.prems(2) by simp
  have eq: "halving_loop i bv = halving_loop ?h (fold_pairs ?h bv)"
    using h(3) by (subst halving_loop.simps) simp
  have l: "length (fold_pairs ?h bv) = length bv"
    using fold_pairs_nth [OF len] by simp
  have "?h \<le> length (fold_pairs ?h bv)" using l len by simp
  from Suc.IH [OF h(1) this]
  have "length (halving_loop ?h (fold_pairs ?h bv)) = length bv"
    "halving_loop ?h (fold_pairs ?h bv) ! 0 = (\<Sum>j<?h. fold_pairs ?h bv ! j)"
    using l by simp_all
  moreover have "(\<Sum>j<?h. fold_pairs ?h bv ! j) = (\<Sum>j<i. bv ! j)"
    using fold_pairs_sum [OF len] h(2) by simp
  ultimately show ?case unfolding eq by simp
qed

lemma pairwise_sum_correct:
  assumes "fv \<noteq> []"
  shows "length (pairwise_sum fv) = length fv \<and> pairwise_sum fv ! 0 = sum_list fv"
proof -
  let ?N = "length fv"
  let ?b = "first_pass fv (replicate ?N 0)"
  let ?i = "pow2_loop ?N 1"
  from assms have N: "1 \<le> ?N" by (simp add: Suc_le_eq)
  from pow2_loop_start [OF N] obtain a where
    i: "?i = 2 ^ a" "?i \<le> ?N" "?N < 2 * ?i" by auto
  from first_pass_sum [of fv] have
    b: "length ?b = ?N" "sum_list ?b = sum_list fv"
    "\<And>j. (?N + 1) div 2 \<le> j \<Longrightarrow> j < ?N \<Longrightarrow> ?b ! j = 0"
    by auto
  have ps: "pairwise_sum fv = halving_loop ?i ?b"
    using assms by (simp add: pairwise_sum_def Let_def)
  from halving_loop_sum [OF i(1), of ?b] i(2) b(1)
  have h: "length (halving_loop ?i ?b) = ?N" "halving_loop ?i ?b ! 0 = (\<Sum>j<?i. ?b ! j)"
    by simp_all
  have "sum_list ?b = (\<Sum>j = 0..<?N. ?b ! j)"
    using b(1) by (simp add: sum_list_sum_nth)
  also have "\<dots> = (\<Sum>j = 0..<?i. ?b ! j) + (\<Sum>j = ?i..<?N. ?b ! j)"
    using i(2) by (simp add: sum.atLeastLessThan_concat)
  also have "(\<Sum>j = ?i..<?N. ?b ! j) = 0"
  proof (rule sum.neutral, rule ballI)
    fix j assume "j \<in> {?i..<?N}"
    then have "(?N + 1) div 2 \<le> j" "j < ?N" using i(3) by auto
    then show "?b ! j = 0" by (rule b(3))
  qed
  finally have "sum_list ?b = (\<Sum>j<?i. ?b ! j)"
    by (simp add: atLeast0LessThan)
  with h b(2) ps show ?thesis by simp
qed

text \<open>
  Claim C4.  For a nonempty input the summation block leaves the exact sum of the data in
  \<open>b[0]\<close>, and the mean written by \<open>burg_method\<close> is that sum divided by \<open>N\<close>,
  whatever the requested order and the flags are and however the run ends afterwards.
\<close>

theorem burg_mean_exact:
  assumes "x \<noteq> []"
  shows "pairwise_sum x ! 0 = sum_list x \<and>
         mean (burg_method x p sm h) = Some (sum_list x / of_nat (length x))"
proof -
  from pairwise_sum_correct [OF assms]
  have ps: "length (pairwise_sum x) = length x" "pairwise_sum x ! 0 = sum_list x" by auto
  from assms have sub: "subscript (pairwise_sum x) 0 = Inr (sum_list x)"
    using ps by (simp add: subscript_def)
  from assms have dv: "vdiv (sum_list x) (of_nat (length x)) = Inr (sum_list x / of_nat (length x))"
    by (simp add: vdiv_def)
  have "mean (burg_method x p sm h) = Some (sum_list x / of_nat (length x))"
    by (simp add: burg_method_def Let_def sub dv split: sum.split prod.split option.split)
  with ps show ?thesis by simp
qed

text \<open>Five samples with sum \<open>15\<close> and mean \<open>3\<close>.\<close>

theorem burg_mean_exact_witness:
  "[1, 2, 3, 4, 5 :: rat] \<noteq> [] \<and> pairwise_sum [1, 2, 3, 4, 5] ! 0 = 15 \<and> mean (burg_method [1, 2, 3, 4, 5] 0 False False) = Some 3"
  using burg_mean_exact [of "[1, 2, 3, 4, 5]" 0 False False] by simp

section \<open>The recursion keeps \<open>Dk\<close> a sum of squares\<close>

lemma inner_product_sum:
  "length xs \<le> length ys \<Longrightarrow>
   inner_product xs ys init = init + (\<Sum>n<length xs. xs ! n * ys ! n)"
proof (induction xs ys init rule: inner_product.induct)
  case (1 ys init)
  show ?case by simp
next
  case (2 x xs init)
  then show ?case by simp
next
  case (3 x xs y ys init)
  then have "inner_product xs ys (init + x * y) = init + x * y + (\<Sum>n<length xs. xs ! n * ys ! n)"
    by simp
  then show ?case by (simp add: sum.lessThan_Suc_shift del: sum.lessThan_Suc)
qed

lemma inner_product_cross:
  assumes "length fv = N" "length bv = N"
  shows "inner_product (drop k fv) bv 0 = cross N k fv bv"
proof -
  have "inner_product (drop k fv) bv 0 = (\<Sum>n<length (drop k fv). drop k fv ! n * bv ! n)"
    using assms by (simp add: inner_product_sum)
  also have "\<dots> = (\<Sum>n<N - k. fv ! (n + k) * bv ! n)"
    using assms by (intro sum.cong) (auto simp: add.commute)
  finally show ?thesis by (simp add: cross_def)
qed

lemma inner_product_self:
  "inner_product fv fv 0 = (\<Sum>n<length fv. fv ! n * fv ! n)"
  by (simp add: inner_product_sum)

lemma energy_nonneg: "0 \<le> energy N k fv bv"
  unfolding energy_def by (intro sum_nonneg) simp

lemma cross_bound: "\<bar>2 * cross N k fv bv\<bar> \<le> energy N k fv bv"
proof -
  have t: "\<bar>2 * (x * y)\<bar> \<le> x * x + y * y" for x y :: rat
  proof -
    have "0 \<le> (x - y) * (x - y)" "0 \<le> (x + y) * (x + y)" by simp_all
    then have "2 * (x * y) \<le> x * x + y * y" "- (x * x + y * y) \<le> 2 * (x * y)"
      by (simp_all add: algebra_simps)
    then show ?thesis by (simp add: abs_le_iff)
  qed
  have "\<bar>2 * cross N k fv bv\<bar> = \<bar>\<Sum>n<N - k. 2 * (fv ! (n + k) * bv ! n)\<bar>"
    by (simp add: cross_def sum_distrib_left)
  also have "\<dots> \<le> (\<Sum>n<N - k. \<bar>2 * (fv ! (n + k) * bv ! n)\<bar>)"
    by (rule sum_abs)
  also have "\<dots> \<le> (\<Sum>n<N - k. fv ! (n + k) * fv ! (n + k) + bv ! n * bv ! n)"
    by (intro sum_mono t)
  finally show ?thesis by (simp add: energy_def)
qed

lemma mu_bound:
  assumes "D = energy N k fv bv" "D \<noteq> 0" "mu = 2 / D * cross N k fv bv"
  shows "mu * mu \<le> 1" and "mu * D = 2 * cross N k fv bv"
proof -
  have pos: "0 < D" using assms(1,2) energy_nonneg [of N k fv bv] by simp
  show md: "mu * D = 2 * cross N k fv bv" using assms(2,3) by simp
  have "\<bar>mu\<bar> * D = \<bar>mu * D\<bar>"
    using pos by (simp add: abs_mult)
  also have "\<dots> = \<bar>2 * cross N k fv bv\<bar>"
    by (simp only: md)
  also have "\<dots> \<le> 1 * D" using cross_bound [of N k fv bv] assms(1) by simp
  finally have "\<bar>mu\<bar> \<le> 1" using pos by (simp only: mult_le_cancel_right_pos)
  then have "\<bar>mu\<bar> * \<bar>mu\<bar> \<le> 1 * 1" by (intro mult_mono) simp_all
  then show "mu * mu \<le> 1" by simp
qed

lemma residual_sweep_nth:
  fixes fv bv :: "rat list"
  assumes "length fv = N" "length bv = N" "cnt + k \<le> N"
  shows "case residual_sweep mu k cnt (fv, bv) of (fv', bv') \<Rightarrow>
           length fv' = N \<and> length bv' = N \<and>
           (\<forall>j. fv' ! j = (if k \<le> j \<and> j < k + cnt then fv ! j - mu * bv ! (j - k) else fv ! j)) \<and>
           (\<forall>n. bv' ! n = (if n < cnt then bv ! n - mu * fv ! (n + k) else bv ! n))"
  using assms(3)
proof (induction cnt)
  case 0
  show ?case using assms(1,2) by (simp add: residual_sweep_def)
next
  case (Suc cnt)
  obtain f1 b1 where r: "residual_sweep mu k cnt (fv, bv) = (f1, b1)"
    by (cases "residual_sweep mu k cnt (fv, bv)")
  from Suc r have IH: "length f1 = N" "length b1 = N"
    "\<And>j. f1 ! j = (if k \<le> j \<and> j < k + cnt then fv ! j - mu * bv ! (j - k) else fv ! j)"
    "\<And>n. b1 ! n = (if n < cnt then bv ! n - mu * fv ! (n + k) else bv ! n)"
    by auto
  have cur: "f1 ! (cnt + k) = fv ! (cnt + k)" "b1 ! cnt = bv ! cnt"
    using IH(3) [of "cnt + k"] IH(4) [of cnt] by simp_all
  have step: "residual_sweep mu k (Suc cnt) (fv, bv) =
      (f1[cnt + k := fv ! (cnt + k) - mu * bv ! cnt], b1[cnt := bv ! cnt - mu * fv ! (cnt + k)])"
    using r cur by (simp add: residual_sweep_def Let_def)
  have in_range: "cnt + k < length f1" "cnt < length b1"
    using Suc.prems IH(1,2) by simp_all
  show ?case
    unfolding step using IH in_range
    by (auto simp: nth_list_update less_Suc_eq)
qed

lemma square_pair:
  "(x - mu * y) * (x - mu * y) + (y - mu * x) * (y - mu * x)
     = (1 + mu * mu) * (x * x + y * y) - 2 * mu * (2 * (x * y))" for x y mu :: rat
  by (simp add: algebra_simps)

lemma residual_sweep_energy:
  fixes fv bv :: "rat list"
  assumes "length fv = N" "length bv = N" "k \<le> N"
    and "residual_sweep mu k (N - k) (fv, bv) = (fv', bv')"
  shows "length fv' = N" "length bv' = N"
    and "(\<Sum>n<N - k. fv' ! (n + k) * fv' ! (n + k) + bv' ! n * bv' ! n)
           = (1 + mu * mu) * energy N k fv bv - 2 * mu * (2 * cross N k fv bv)"
proof -
  have le: "N - k + k \<le> N" using assms(3) by simp
  from residual_sweep_nth [OF assms(1,2) le, of mu] assms(4)
  have c: "length fv' = N" "length bv' = N"
    "\<And>j. fv' ! j = (if k \<le> j \<and> j < k + (N - k) then fv ! j - mu * bv ! (j - k) else fv ! j)"
    "\<And>n. bv' ! n = (if n < N - k then bv ! n - mu * fv ! (n + k) else bv ! n)"
    by auto
  show "length fv' = N" "length bv' = N" by (rule c)+
  have "(\<Sum>n<N - k. fv' ! (n + k) * fv' ! (n + k) + bv' ! n * bv' ! n)
        = (\<Sum>n<N - k. (1 + mu * mu) * (fv ! (n + k) * fv ! (n + k) + bv ! n * bv ! n)
                        - 2 * mu * (2 * (fv ! (n + k) * bv ! n)))"
  proof (rule sum.cong [OF refl])
    fix n assume "n \<in> {..<N - k}"
    then have n: "n < N - k" "n + k < N" by auto
    then have "fv' ! (n + k) = fv ! (n + k) - mu * bv ! n" "bv' ! n = bv ! n - mu * fv ! (n + k)"
      using c(3) [of "n + k"] c(4) [of n] by simp_all
    then show "fv' ! (n + k) * fv' ! (n + k) + bv' ! n * bv' ! n
        = (1 + mu * mu) * (fv ! (n + k) * fv ! (n + k) + bv ! n * bv ! n)
          - 2 * mu * (2 * (fv ! (n + k) * bv ! n))"
      by (simp only: square_pair)
  qed
  also have "\<dots> = (1 + mu * mu) * energy N k fv bv - 2 * mu * (2 * cross N k fv bv)"
    by (simp only: energy_def cross_def sum_subtractf sum_distrib_left)
  finally show "(\<Sum>n<N - k. fv' ! (n + k) * fv' ! (n + k) + bv' ! n * bv' ! n)
           = (1 + mu * mu) * energy N k fv bv - 2 * mu * (2 * cross N k fv bv)" .
qed

lemma energy_shift:
  assumes "k < N"
  shows "(\<Sum>n<N - k. fv ! (n + k) * fv ! (n + k) + bv ! n * bv ! n)
         = energy N (k + 1) fv bv + fv ! k * fv ! k + bv ! (N - k - 1) * bv ! (N - k - 1)"
proof -
  obtain d where d: "N - k = Suc d" using assms by (cases "N - k") auto
  then have d': "N - (k + 1) = d" "N - k - 1 = d" by simp_all
  have "(\<Sum>n<Suc d. fv ! (n + k) * fv ! (n + k) + bv ! n * bv ! n)
        = (\<Sum>n<Suc d. fv ! (n + k) * fv ! (n + k)) + (\<Sum>n<Suc d. bv ! n * bv ! n)"
    by (rule sum.distrib)
  also have "(\<Sum>n<Suc d. fv ! (n + k) * fv ! (n + k))
        = fv ! k * fv ! k + (\<Sum>n<d. fv ! (n + (k + 1)) * fv ! (n + (k + 1)))"
    by (simp add: sum.lessThan_Suc_shift del: sum.lessThan_Suc)
  also have "(\<Sum>n<Suc d. bv ! n * bv ! n) = (\<Sum>n<d. bv ! n * bv ! n) + bv ! d * bv ! d"
    by simp
  finally show ?thesis
    unfolding energy_def d d' by (simp add: sum.distrib)
qed

lemma energy_start:
  assumes "length fv = N" "1 \<le> N"
  shows "energy N 1 fv fv = - fv ! 0 * fv ! 0 - fv ! (N - 1) * fv ! (N - 1) + 2 * inner_product fv fv 0"
proof -
  obtain d where d: "N = Suc d" using assms(2) by (cases N) auto
  have a: "(\<Sum>n<Suc d. fv ! n * fv ! n) = fv ! 0 * fv ! 0 + (\<Sum>n<d. fv ! (n + 1) * fv ! (n + 1))"
    by (simp add: sum.lessThan_Suc_shift del: sum.lessThan_Suc)
  have b: "(\<Sum>n<Suc d. fv ! n * fv ! n) = (\<Sum>n<d. fv ! n * fv ! n) + fv ! d * fv ! d"
    by simp
  have "energy N 1 fv fv = (\<Sum>n<d. fv ! (n + 1) * fv ! (n + 1)) + (\<Sum>n<d. fv ! n * fv ! n)"
    by (simp add: energy_def d sum.distrib)
  also have "\<dots> = - fv ! 0 * fv ! 0 - fv ! d * fv ! d + 2 * (\<Sum>n<Suc d. fv ! n * fv ! n)"
    using a b by linarith
  finally show ?thesis
    using assms(1) d by (simp add: inner_product_self)
qed

lemma Ak_sweep_length: "length (Ak_sweep mu k A) = length A"
proof -
  have "length (fold (\<lambda>n A. let t1 = A ! n - mu * A ! (k - n);
                                 t2 = A ! (k - n) - mu * A ! n
                             in (A[n := t1])[k - n := t2]) ns A) = length A" for ns
    by (induction ns arbitrary: A) (simp_all add: Let_def)
  then show ?thesis by (simp add: Ak_sweep_def)
qed

lemma burg_update_Inr:
  assumes "burg_update k st = Inr (mu, st1)"
  shows "Dk st \<noteq> 0" "mu = 2 / Dk st * inner_product (drop k (f st)) (b st) 0"
    "f st1 = f st" "b st1 = b st" "Dk st1 = Dk st"
    "sigma2e st1 = sigma2e st * (1 - mu * mu)"
    "length (Ak st1) = length (Ak st)" "length (autocor st1) = length (autocor st) + 1"
    "params_first st1 = params_first st" "sigma2e_first st1 = sigma2e_first st"
    "gain_first st1 = gain_first st"
  using assms
  by (auto simp: burg_update_def Let_def vdiv_def Ak_sweep_length split: sum.splits if_splits)

lemma burg_emit_fields:
  "f (burg_emit h m k st) = f st" "b (burg_emit h m k st) = b st"
  "Ak (burg_emit h m k st) = Ak st" "Dk (burg_emit h m k st) = Dk st"
  "sigma2e (burg_emit h m k st) = sigma2e st" "gain (burg_emit h m k st) = gain st"
  "autocor (burg_emit h m k st) = autocor st"
  "params_first (burg_emit h m k st) =
     params_first st @ (if h \<or> k = m then take k (drop 1 (Ak st)) else [])"
  "sigma2e_first (burg_emit h m k st) = sigma2e_first st @ (if h \<or> k = m then [sigma2e st] else [])"
  "gain_first (burg_emit h m k st) = gain_first st @ (if h \<or> k = m then [gain st] else [])"
  by (simp_all add: burg_emit_def)

lemma burg_residuals_fields:
  "Ak (burg_residuals N m k mu st) = Ak st"
  "sigma2e (burg_residuals N m k mu st) = sigma2e st" "gain (burg_residuals N m k mu st) = gain st"
  "autocor (burg_residuals N m k mu st) = autocor st"
  "params_first (burg_residuals N m k mu st) = params_first st"
  "sigma2e_first (burg_residuals N m k mu st) = sigma2e_first st"
  "gain_first (burg_residuals N m k mu st) = gain_first st"
  by (simp_all add: burg_residuals_def split: prod.split)

lemma burg_residuals_energy:
  assumes "length (f st) = N" "length (b st) = N" "k < m" "m < N"
    and "Dk st = energy N k (f st) (b st)" "mu * Dk st = 2 * cross N k (f st) (b st)"
  shows "length (f (burg_residuals N m k mu st)) = N"
    "length (b (burg_residuals N m k mu st)) = N"
    "Dk (burg_residuals N m k mu st)
       = energy N (k + 1) (f (burg_residuals N m k mu st)) (b (burg_residuals N m k mu st))"
proof -
  obtain fv bv where r: "residual_sweep mu k (N - k) (f st, b st) = (fv, bv)"
    by (cases "residual_sweep mu k (N - k) (f st, b st)")
  have kN: "k \<le> N" "k < N" using assms(3,4) by simp_all
  note e = residual_sweep_energy [OF assms(1,2) kN(1) r]
  have st': "f (burg_residuals N m k mu st) = fv" "b (burg_residuals N m k mu st) = bv"
    "Dk (burg_residuals N m k mu st)
       = (1 - mu * mu) * Dk st - fv ! k * fv ! k - bv ! (N - k - 1) * bv ! (N - k - 1)"
    using assms(3) r by (simp_all add: burg_residuals_def)
  show "length (f (burg_residuals N m k mu st)) = N" "length (b (burg_residuals N m k mu st)) = N"
    using e(1,2) st' by simp_all
  have "(1 + mu * mu) * energy N k (f st) (b st) - 2 * mu * (2 * cross N k (f st) (b st))
        = (1 - mu * mu) * Dk st"
    using assms(5,6) by (simp add: algebra_simps)
  with e(3) energy_shift [OF kN(2), of fv bv]
  have "energy N (k + 1) fv bv
        = (1 - mu * mu) * Dk st - fv ! k * fv ! k - bv ! (N - k - 1) * bv ! (N - k - 1)"
    by simp
  then show "Dk (burg_residuals N m k mu st)
       = energy N (k + 1) (f (burg_residuals N m k mu st)) (b (burg_residuals N m k mu st))"
    using st' by simp
qed

lemma burg_residuals_last:
  assumes "\<not> k < m"
  shows "burg_residuals N m k mu st = st"
  using assms by (simp add: burg_residuals_def)

lemma burg_step:
  fixes h :: bool
  assumes inv: "loop_inv N m k st" and m: "m < N" and k: "k \<le> m"
    and upd: "burg_update k st = Inr (mu, st1)"
  defines "st3 \<equiv> burg_residuals N m k mu (burg_emit h m k st1)"
  shows "mu * mu \<le> 1" "sigma2e st3 = sigma2e st * (1 - mu * mu)"
    "0 \<le> sigma2e st3" "sigma2e st3 \<le> sigma2e st"
    "loop_inv N m (k + 1) st3"
    "params_first st3 = params_first st @ (if h \<or> k = m then take k (drop 1 (Ak st3)) else [])"
    "sigma2e_first st3 = sigma2e_first st @ (if h \<or> k = m then [sigma2e st3] else [])"
    "gain_first st3 = gain_first st @ (if h \<or> k = m then [gain st3] else [])"
proof -
  note u = burg_update_Inr [OF upd]
  from inv k have i: "length (f st) = N" "length (b st) = N" "length (Ak st) = m + 1"
    "length (autocor st) + 1 = k" "Dk st = energy N k (f st) (b st)" "0 \<le> sigma2e st"
    by (simp_all add: loop_inv_def)
  have mu: "mu = 2 / Dk st * cross N k (f st) (b st)"
    using u(2) inner_product_cross [OF i(1,2), of k] by simp
  note mb = mu_bound [OF i(5) u(1) mu]
  show "mu * mu \<le> 1" by (rule mb(1))
  show s: "sigma2e st3 = sigma2e st * (1 - mu * mu)"
    by (simp add: st3_def burg_residuals_fields burg_emit_fields u)
  have "0 \<le> 1 - mu * mu" "1 - mu * mu \<le> 1" using mb(1) by simp_all
  then show s0: "0 \<le> sigma2e st3" and "sigma2e st3 \<le> sigma2e st"
    unfolding s using i(6) by (simp_all add: mult_left_le)
  show "params_first st3 = params_first st @ (if h \<or> k = m then take k (drop 1 (Ak st3)) else [])"
    "sigma2e_first st3 = sigma2e_first st @ (if h \<or> k = m then [sigma2e st3] else [])"
    "gain_first st3 = gain_first st @ (if h \<or> k = m then [gain st3] else [])"
    by (simp_all add: st3_def burg_residuals_fields burg_emit_fields u)
  have common: "length (Ak st3) = m + 1" "length (autocor st3) + 1 = k + 1"
    using i(3,4) by (simp_all add: st3_def burg_residuals_fields burg_emit_fields u)
  show "loop_inv N m (k + 1) st3"
  proof (cases "k < m")
    case True
    let ?e = "burg_emit h m k st1"
    have pre: "length (f ?e) = N" "length (b ?e) = N" "Dk ?e = energy N k (f ?e) (b ?e)"
      "mu * Dk ?e = 2 * cross N k (f ?e) (b ?e)"
      using i mb(2) by (simp_all add: burg_emit_fields u)
    from burg_residuals_energy [OF pre(1,2) True m pre(3,4)]
    show ?thesis
      unfolding loop_inv_def using common s0 by (simp add: st3_def)
  next
    case False
    then have "st3 = burg_emit h m k st1" by (simp add: st3_def burg_residuals_last)
    with False k show ?thesis
      unfolding loop_inv_def using common s0 i by (simp add: burg_emit_fields u)
  qed
qed

lemma descending_chain_snoc:
  assumes "descending_chain xs" "xs \<noteq> [] \<longrightarrow> last xs = cur" "0 \<le> cur" "mu * mu \<le> 1"
  shows "descending_chain (xs @ [cur * (1 - mu * mu)])"
proof -
  have nn: "0 \<le> cur * (1 - mu * mu)" and le: "cur * (1 - mu * mu) \<le> cur"
    using assms(3,4) by (simp_all add: mult_left_le)
  have "(xs @ [cur * (1 - mu * mu)]) ! Suc j \<le> (xs @ [cur * (1 - mu * mu)]) ! j \<and>
        (\<exists>nu. nu * nu \<le> 1 \<and>
           (xs @ [cur * (1 - mu * mu)]) ! Suc j = (xs @ [cur * (1 - mu * mu)]) ! j * (1 - nu * nu))"
    if j: "Suc j < length (xs @ [cur * (1 - mu * mu)])" for j
  proof (cases "Suc j < length xs")
    case True
    with assms(1) show ?thesis by (simp add: descending_chain_def nth_append)
  next
    case False
    with j have e: "Suc j = length xs" by simp
    then have "xs \<noteq> []" by auto
    moreover from e have "j = length xs - 1" by simp
    ultimately have "xs ! j = cur" using assms(2) by (simp add: last_conv_nth)
    with e le assms(4) show ?thesis by (auto simp: nth_append)
  qed
  with assms(1) nn show ?thesis by (simp add: descending_chain_def)
qed

lemma burg_loop_sigma2e_chain:
  "h \<Longrightarrow> m < N \<Longrightarrow> loop_inv N m k st \<Longrightarrow> descending_chain (sigma2e_first st) \<Longrightarrow>
   (sigma2e_first st \<noteq> [] \<longrightarrow> last (sigma2e_first st) = sigma2e st) \<Longrightarrow>
   descending_chain (sigma2e_first (fst (burg_loop h N m k st)))"
proof (induction h N m k st rule: burg_loop.induct)
  case (1 h N m k st)
  show ?case
  proof (cases "k \<le> m")
    case False
    with "1.prems" show ?thesis by (simp add: burg_loop_stop)
  next
    case True
    show ?thesis
    proof (cases "burg_update k st")
      case (Inl e)
      with True "1.prems" show ?thesis by (simp add: burg_loop_error)
    next
      case (Inr p)
      obtain mu st1 where p: "p = (mu, st1)" by (cases p)
      let ?st3 = "burg_residuals N m k mu (burg_emit h m k st1)"
      have upd: "burg_update k st = Inr (mu, st1)" using Inr p by simp
      note step1 = burg_step(1) [OF "1.prems"(3,2) True upd]
      note step = burg_step(2-8) [OF "1.prems"(3,2) True upd, where h = h]
      from "1.prems"(3) have nn: "0 \<le> sigma2e st" by (simp add: loop_inv_def)
      have sf: "sigma2e_first ?st3 = sigma2e_first st @ [sigma2e st * (1 - mu * mu)]"
        using step(6) step(1) "1.prems"(1) by simp
      have c: "descending_chain (sigma2e_first ?st3)"
        unfolding sf by (rule descending_chain_snoc [OF "1.prems"(4,5) nn step1])
      have l: "sigma2e_first ?st3 \<noteq> [] \<longrightarrow> last (sigma2e_first ?st3) = sigma2e ?st3"
        using sf step(1) by simp
      have "descending_chain (sigma2e_first (fst (burg_loop h N m (k + 1) ?st3)))"
        by (rule "1.IH" [OF True Inr p [symmetric] "1.prems"(1,2) step(4) c l])
      then show ?thesis
        using True upd by (simp add: burg_loop_step)
    qed
  qed
qed

lemma burg_update_core:
  assumes "core st = core st'"
  shows "(burg_update k st = Inl e) = (burg_update k st' = Inl e)"
    and "burg_update k st = Inr (mu, st1) \<Longrightarrow>
         \<exists>st1'. burg_update k st' = Inr (mu, st1') \<and> core st1' = core st1"
  using assms
  by (auto simp: core_def burg_update_def Let_def split: sum.splits)

lemma burg_emit_core: "core (burg_emit h m k st) = core st"
  by (simp add: core_def burg_emit_def)

lemma burg_residuals_core:
  "core st = core st' \<Longrightarrow> core (burg_residuals N m k mu st) = core (burg_residuals N m k mu st')"
  by (auto simp: core_def burg_residuals_def split: prod.splits)

lemma burg_loop_core:
  "core st = core st' \<Longrightarrow>
   snd (burg_loop h N m k st) = snd (burg_loop h' N m k st') \<and>
   core (fst (burg_loop h N m k st)) = core (fst (burg_loop h' N m k st'))"
proof (induction h N m k st arbitrary: st' rule: burg_loop.induct)
  case (1 h N m k st)
  show ?case
  proof (cases "k \<le> m")
    case False
    with "1.prems" show ?thesis by (simp add: burg_loop_stop)
  next
    case True
    show ?thesis
    proof (cases "burg_update k st")
      case (Inl e)
      then have "burg_update k st' = Inl e"
        using burg_update_core(1) [OF "1.prems"] by simp
      with Inl True "1.prems" show ?thesis by (simp add: burg_loop_error)
    next
      case (Inr p)
      obtain mu st1 where p: "p = (mu, st1)" by (cases p)
      have upd: "burg_update k st = Inr (mu, st1)" using Inr p by simp
      from burg_update_core(2) [OF "1.prems" upd] obtain st1' where
        upd': "burg_update k st' = Inr (mu, st1')" and c1: "core st1' = core st1" by auto
      have "core (burg_emit h m k st1) = core (burg_emit h' m k st1')"
        using c1 by (simp add: burg_emit_core)
      then have c3: "core (burg_residuals N m k mu (burg_emit h m k st1))
                   = core (burg_residuals N m k mu (burg_emit h' m k st1'))"
        by (rule burg_residuals_core)
      from "1.IH" [OF True Inr p [symmetric] c3]
      show ?thesis
        using True upd upd' by (simp add: burg_loop_step)
    qed
  qed
qed

lemma burg_upto_stop: "\<not> kp1 \<le> j \<Longrightarrow> burg_upto h N m j kp1 st = (st, None)"
  by (subst burg_upto.simps) simp

lemma burg_upto_step:
  "kp1 \<le> j \<Longrightarrow> burg_update kp1 st = Inr (mu, st1) \<Longrightarrow>
   burg_upto h N m j kp1 st =
   burg_upto h N m j (kp1 + 1) (burg_residuals N m kp1 mu (burg_emit h m kp1 st1))"
  by (subst burg_upto.simps) simp

lemma burg_upto_all: "burg_upto h N m m kp1 st = burg_loop h N m kp1 st"
proof (induction h N m kp1 st rule: burg_loop.induct)
  case (1 h N m k st)
  show ?case
  proof (cases "k \<le> m")
    case False
    then show ?thesis by (simp add: burg_loop_stop burg_upto_stop)
  next
    case True
    show ?thesis
    proof (cases "burg_update k st")
      case (Inl e)
      with True show ?thesis
        by (subst burg_upto.simps) (simp add: burg_loop_error)
    next
      case (Inr p)
      obtain mu st1 where p: "p = (mu, st1)" by (cases p)
      from "1.IH" [OF True Inr p [symmetric]] True Inr p show ?thesis
        by (simp add: burg_loop_step burg_upto_step)
    qed
  qed
qed

lemma burg_loop_hierarchy_blocks:
  "h \<Longrightarrow> m < N \<Longrightarrow> loop_inv N m k st \<Longrightarrow> k \<le> m + 1 \<Longrightarrow>
   burg_loop h N m k st = (st', None) \<Longrightarrow>
   \<exists>blocks ss gs.
     params_first st' = params_first st @ concat blocks \<and> length blocks = m + 1 - k \<and>
     (\<forall>j<length blocks. length (blocks ! j) = k + j) \<and>
     (\<forall>j<length blocks.
        blocks ! j = take (k + j) (drop 1 (Ak (fst (burg_upto h N m (k + j) k st))))) \<and>
     sigma2e_first st' = sigma2e_first st @ ss \<and> length ss = m + 1 - k \<and>
     gain_first st' = gain_first st @ gs \<and> length gs = m + 1 - k \<and>
     (k \<le> m \<longrightarrow> last blocks = take m (drop 1 (Ak st')) \<and> last ss = sigma2e st' \<and>
                 last gs = gain st') \<and>
     length (autocor st') = m"
proof (induction h N m k st arbitrary: st' rule: burg_loop.induct)
  case (1 h N m k st)
  show ?case
  proof (cases "k \<le> m")
    case False
    with "1.prems" have "st' = st" "k = m + 1" by (simp_all add: burg_loop_stop)
    moreover from "1.prems"(3) have "length (autocor st) + 1 = k" by (simp add: loop_inv_def)
    ultimately show ?thesis
      by (intro exI [of _ "[]"]) simp
  next
    case True
    show ?thesis
    proof (cases "burg_update k st")
      case (Inl e)
      with True "1.prems"(5) show ?thesis by (simp add: burg_loop_error)
    next
      case (Inr p)
      obtain mu st1 where p: "p = (mu, st1)" by (cases p)
      let ?st3 = "burg_residuals N m k mu (burg_emit h m k st1)"
      have upd: "burg_update k st = Inr (mu, st1)" using Inr p by simp
      note step = burg_step(2-8) [OF "1.prems"(3,2) True upd, where h = h]
      have run: "burg_loop h N m (k + 1) ?st3 = (st', None)"
        using "1.prems"(5) True upd by (simp add: burg_loop_step)
      have k1: "k + 1 \<le> m + 1" using True by simp
      from "1.IH" [OF True Inr p [symmetric] "1.prems"(1,2) step(4) k1 run]
      obtain blocks ss gs where r:
        "params_first st' = params_first ?st3 @ concat blocks" "length blocks = m + 1 - (k + 1)"
        "\<forall>j<length blocks. length (blocks ! j) = k + 1 + j"
        and rc: "\<forall>j<length blocks.
           blocks ! j = take (k + 1 + j) (drop 1 (Ak (fst (burg_upto h N m (k + 1 + j) (k + 1) ?st3))))"
        and r2:
        "sigma2e_first st' = sigma2e_first ?st3 @ ss" "length ss = m + 1 - (k + 1)"
        "gain_first st' = gain_first ?st3 @ gs" "length gs = m + 1 - (k + 1)"
        "k + 1 \<le> m \<longrightarrow> last blocks = take m (drop 1 (Ak st')) \<and> last ss = sigma2e st' \<and>
                 last gs = gain st'"
        "length (autocor st') = m"
        by blast
      let ?blk = "take k (drop 1 (Ak ?st3))"
      from step(4) have lenA: "length (Ak ?st3) = m + 1" by (simp add: loop_inv_def)
      then have lblk: "length ?blk = k" using True by simp
      have e: "params_first ?st3 = params_first st @ ?blk"
        "sigma2e_first ?st3 = sigma2e_first st @ [sigma2e ?st3]"
        "gain_first ?st3 = gain_first st @ [gain ?st3]"
        using step(5,6,7) "1.prems"(1) by simp_all
      have lens: "\<forall>j<length (?blk # blocks). length ((?blk # blocks) ! j) = k + j"
        using r(3) lblk by (auto simp: nth_Cons split: nat.splits)
      have conts: "\<forall>j<length (?blk # blocks).
          (?blk # blocks) ! j = take (k + j) (drop 1 (Ak (fst (burg_upto h N m (k + j) k st))))"
      proof (intro allI impI)
        fix j assume j: "j < length (?blk # blocks)"
        have unf: "burg_upto h N m (k + j) k st = burg_upto h N m (k + j) (k + 1) ?st3"
          using upd by (simp add: burg_upto_step)
        show "(?blk # blocks) ! j = take (k + j) (drop 1 (Ak (fst (burg_upto h N m (k + j) k st))))"
        proof (cases j)
          case 0
          then show ?thesis using unf by (simp add: burg_upto_stop)
        next
          case (Suc i)
          with j have "i < length blocks" by simp
          with rc [rule_format, of i] Suc unf show ?thesis by simp
        qed
      qed
      have lasts: "last (?blk # blocks) = take m (drop 1 (Ak st')) \<and>
                   last (sigma2e ?st3 # ss) = sigma2e st' \<and> last (gain ?st3 # gs) = gain st'"
      proof (cases "k = m")
        case True
        then have "blocks = []" "ss = []" "gs = []" using r(2) r2(2,4) by simp_all
        moreover have "st' = ?st3" using run True by (simp add: burg_loop_stop)
        ultimately show ?thesis using True by simp
      next
        case False
        with True have lt: "k + 1 \<le> m" by simp
        then have "blocks \<noteq> []" "ss \<noteq> []" "gs \<noteq> []" using r(2) r2(2,4) by auto
        with r2(5) lt show ?thesis by simp
      qed
      show ?thesis
        apply (rule exI [of _ "?blk # blocks"])
        apply (rule exI [of _ "sigma2e ?st3 # ss"])
        apply (rule exI [of _ "gain ?st3 # gs"])
        using r(1,2) r2(1,2,3,4,6) e lens conts lasts True
        apply (intro conjI impI)
        apply simp_all
        done
    qed
  qed
qed

lemma burg_loop_final_only:
  "\<not> h \<Longrightarrow> m < N \<Longrightarrow> loop_inv N m k st \<Longrightarrow> k \<le> m \<Longrightarrow>
   burg_loop h N m k st = (st', None) \<Longrightarrow>
   params_first st' = params_first st @ take m (drop 1 (Ak st')) \<and>
   sigma2e_first st' = sigma2e_first st @ [sigma2e st'] \<and>
   gain_first st' = gain_first st @ [gain st']"
proof (induction h N m k st arbitrary: st' rule: burg_loop.induct)
  case (1 h N m k st)
  note True = "1.prems"(4)
  show ?case
  proof (cases "burg_update k st")
    case (Inl e)
    with True "1.prems"(5) show ?thesis by (simp add: burg_loop_error)
  next
    case (Inr p)
    obtain mu st1 where p: "p = (mu, st1)" by (cases p)
    let ?st3 = "burg_residuals N m k mu (burg_emit h m k st1)"
    have upd: "burg_update k st = Inr (mu, st1)" using Inr p by simp
    note step = burg_step(2-8) [OF "1.prems"(3,2) True upd, where h = h]
    have run: "burg_loop h N m (k + 1) ?st3 = (st', None)"
      using "1.prems"(5) True upd by (simp add: burg_loop_step)
    show ?thesis
    proof (cases "k = m")
      case True
      then have "st' = ?st3" using run by (simp add: burg_loop_stop)
      with step(5,6,7) True show ?thesis by simp
    next
      case False
      with True have lt: "k + 1 \<le> m" by simp
      from "1.IH" [OF True Inr p [symmetric] "1.prems"(1,2) step(4) lt run]
      show ?thesis using step(5,6,7) False "1.prems"(1) by simp
    qed
  qed
qed

lemma effective_order_bound:
  assumes "effective_order p N + 1 \<noteq> 0"
  shows "unat (effective_order p N) < N" "unat (effective_order p N + 1) = unat (effective_order p N) + 1"
proof -
  let ?c = "effective_order p N"
  have s: "unat (?c + 1) = unat ?c + 1"
    using assms unatSuc [of ?c] by (simp add: add.commute)
  show "unat (?c + 1) = unat ?c + 1" by (rule s)
  have "?c + 1 = min (p + 1) (of_nat N)" by (simp add: effective_order_def)
  then have "unat (?c + 1) \<le> unat (of_nat N :: 64 word)"
    by (simp add: word_le_nat_alt [symmetric])
  also have "\<dots> \<le> N" by (simp add: unat_of_nat)
  finally show "unat ?c < N" using s by simp
qed

lemma burg_method_prefix:
  assumes "x \<noteq> []"
  shows "subscript (pairwise_sum x) 0 = Inr (sum_list x)"
    "vdiv (sum_list x) (of_nat (length x)) = Inr (sum_list x / of_nat (length x))"
  using assms pairwise_sum_correct [OF assms] by (simp_all add: subscript_def vdiv_def)

lemma burg_method_zero:
  assumes "x \<noteq> []" "effective_order p (length x) = 0"
  shows "burg_method x p sm h =
    \<lparr>mean = Some (sum_list x / of_nat (length x)), maxorder = 0, params_out = [],
     sigma2e_out = [], gain_out = [], autocor_out = [], ret = Inr (length x)\<rparr>"
  using assms(2)
  by (simp add: burg_method_def Let_def burg_method_prefix [OF assms(1)]
      effective_order_def [symmetric])

lemma burg_method_wrap:
  assumes "x \<noteq> []" "effective_order p (length x) \<noteq> 0" "effective_order p (length x) + 1 = 0"
  shows "burg_method x p sm h =
    \<lparr>mean = Some (sum_list x / of_nat (length x)), maxorder = effective_order p (length x),
     params_out = [], sigma2e_out = [], gain_out = [], autocor_out = [], ret = Inl OutOfRange\<rparr>"
proof -
  have nz: "vdiv v (of_nat (length x)) = Inr (v / of_nat (length x))" for v
    using assms(1) by (simp add: vdiv_def)
  have sub: "subscript (map g x) 0 = Inr (map g x ! 0)" "subscript x 0 = Inr (x ! 0)"
    "subscript (map g x) (length x - Suc 0) = Inr (map g x ! (length x - Suc 0))"
    "subscript x (length x - Suc 0) = Inr (x ! (length x - Suc 0))" for g :: "rat \<Rightarrow> rat"
    using assms(1) by (simp_all add: subscript_def)
  show ?thesis
    using assms(2,3)
    by (simp add: burg_method_def Let_def burg_method_prefix [OF assms(1)] nz sub
        effective_order_def [symmetric])
qed

lemma burg_method_loop:
  assumes "x \<noteq> []" "effective_order p (length x) \<noteq> 0" "effective_order p (length x) + 1 \<noteq> 0"
    and "burg_loop h (length x) (unat (effective_order p (length x))) 1
           (burg_start x sm (unat (effective_order p (length x)))) = (st, eo)"
  shows "burg_method x p sm h =
    \<lparr>mean = Some (sum_list x / of_nat (length x)), maxorder = effective_order p (length x),
     params_out = params_first st, sigma2e_out = sigma2e_first st, gain_out = gain_first st,
     autocor_out = (case eo of None \<Rightarrow> autocor st | Some e \<Rightarrow> []),
     ret = (case eo of None \<Rightarrow> Inr (length x) | Some e \<Rightarrow> Inl e)\<rparr>"
proof -
  have nz: "vdiv v (of_nat (length x)) = Inr (v / of_nat (length x))" for v
    using assms(1) by (simp add: vdiv_def)
  have sub: "subscript (map g x) 0 = Inr (map g x ! 0)" "subscript x 0 = Inr (x ! 0)"
    "subscript (map g x) (length x - Suc 0) = Inr (map g x ! (length x - Suc 0))"
    "subscript x (length x - Suc 0) = Inr (x ! (length x - Suc 0))" for g :: "rat \<Rightarrow> rat"
    using assms(1) by (simp_all add: subscript_def)
  note su = effective_order_bound(2) [OF assms(3)]
  show ?thesis
    using assms(2,3,4) su unfolding burg_start_def
    by (cases eo; cases sm)
      (simp_all add: burg_method_def Let_def burg_method_prefix [OF assms(1)] nz sub
        effective_order_def [symmetric])
qed

lemma burg_start_inv:
  assumes "x \<noteq> []" "1 \<le> m"
  shows "loop_inv (length x) m 1 (burg_start x sm m)"
proof -
  define fv where "fv = (if sm then map (\<lambda>v. v - sum_list x / of_nat (length x)) x else x)"
  have len: "length fv = length x" by (simp add: fv_def)
  have N: "1 \<le> length x" using assms(1) by (simp add: Suc_le_eq)
  have "0 \<le> inner_product fv fv 0"
    unfolding inner_product_self by (intro sum_nonneg) simp
  then have nn: "0 \<le> inner_product fv fv 0 / of_nat (length x)" by simp
  have "energy (length x) 1 fv fv
        = - fv ! 0 * fv ! 0 - fv ! (length x - 1) * fv ! (length x - 1) + 2 * inner_product fv fv 0"
    by (rule energy_start [OF len N])
  with nn len show ?thesis
    unfolding loop_inv_def burg_start_def Let_def fv_def [symmetric] by simp
qed

lemma burg_start_sinks:
  "params_first (burg_start x sm m) = []" "sigma2e_first (burg_start x sm m) = []"
  "gain_first (burg_start x sm m) = []"
  by (simp_all add: burg_start_def Let_def)

section \<open>The innovation variance never increases\<close>

lemma burg_method_Nil:
  "burg_method [] p sm h =
     \<lparr>mean = None, maxorder = p, params_out = [], sigma2e_out = [], gain_out = [],
      autocor_out = [], ret = Inl OutOfRange\<rparr>"
  unfolding burg_method_def Let_def pairwise_sum_Nil by (simp add: subscript_def)

lemma descending_chain_Nil: "descending_chain []"
  by (simp add: descending_chain_def)

lemma burg_method_sigma2e_chain:
  "descending_chain (sigma2e_out (burg_method x p sm True)) \<and>
   (ret (burg_method x p sm True) = Inr (length x) \<longrightarrow>
      length (sigma2e_out (burg_method x p sm True)) = unat (maxorder (burg_method x p sm True)))"
proof -
  let ?c = "effective_order p (length x)"
  consider (empty) "x = []" | (zero) "x \<noteq> []" "?c = 0"
    | (wrap) "x \<noteq> []" "?c \<noteq> 0" "?c + 1 = 0"
    | (loop) "x \<noteq> []" "?c \<noteq> 0" "?c + 1 \<noteq> 0"
    by blast
  then show ?thesis
  proof cases
    case empty
    then show ?thesis by (simp add: burg_method_Nil descending_chain_Nil)
  next
    case zero
    then show ?thesis by (simp add: burg_method_zero descending_chain_Nil)
  next
    case wrap
    then show ?thesis by (simp add: burg_method_wrap descending_chain_Nil)
  next
    case loop
    let ?m = "unat ?c"
    let ?st0 = "burg_start x sm ?m"
    obtain st eo where run: "burg_loop True (length x) ?m 1 ?st0 = (st, eo)"
      by (cases "burg_loop True (length x) ?m 1 ?st0")
    note out = burg_method_loop [OF loop run]
    have m: "?m < length x" by (rule effective_order_bound(1) [OF loop(3)])
    have m1: "1 \<le> ?m" using loop(2) by (simp add: unat_eq_0 [symmetric] Suc_le_eq)
    note inv = burg_start_inv [OF loop(1) m1, of sm]
    have "descending_chain (sigma2e_first (fst (burg_loop True (length x) ?m 1 ?st0)))"
      by (rule burg_loop_sigma2e_chain [OF TrueI m inv])
        (simp_all add: burg_start_sinks descending_chain_Nil)
    then have c: "descending_chain (sigma2e_out (burg_method x p sm True))"
      using run out by simp
    have "length (sigma2e_out (burg_method x p sm True)) = ?m" if "eo = None"
    proof -
      have le: "1 \<le> ?m + 1" by simp
      from burg_loop_hierarchy_blocks [OF TrueI m inv le run [unfolded that]]
      obtain ss where "sigma2e_first st = sigma2e_first ?st0 @ ss" "length ss = ?m + 1 - 1"
        by blast
      then show ?thesis using out by (simp add: burg_start_sinks)
    qed
    then have "ret (burg_method x p sm True) = Inr (length x) \<longrightarrow>
      length (sigma2e_out (burg_method x p sm True)) = unat (maxorder (burg_method x p sm True))"
      using out by (cases eo) simp_all
    with c show ?thesis by simp
  qed
qed

text \<open>
  Claim C1.  In hierarchy mode, over the rationals, every emitted \<open>sigma2e\<close> is
  nonnegative, and the one emitted at order \<open>k + 1\<close> is the one emitted at order \<open>k\<close>
  times \<open>1 - mu\<^sup>2\<close> with \<open>mu\<^sup>2 \<le> 1\<close>, hence not larger.  This holds of whatever the run
  emits; a run without a division by zero returns \<open>N\<close> and emits one value for each order
  \<open>1, ..., p\<close>.
\<close>

theorem sigma2e_nonincreasing:
  "(\<forall>v \<in> set (sigma2e_out (burg_method x p sm True)). 0 \<le> v) \<and>
   (\<forall>k. Suc k < length (sigma2e_out (burg_method x p sm True)) \<longrightarrow>
      sigma2e_out (burg_method x p sm True) ! Suc k \<le> sigma2e_out (burg_method x p sm True) ! k \<and>
      (\<exists>mu. mu * mu \<le> 1 \<and>
         sigma2e_out (burg_method x p sm True) ! Suc k
           = sigma2e_out (burg_method x p sm True) ! k * (1 - mu * mu))) \<and>
   (ret (burg_method x p sm True) = Inr (length x) \<longrightarrow>
      length (sigma2e_out (burg_method x p sm True)) = unat (maxorder (burg_method x p sm True)))"
  using burg_method_sigma2e_chain [of x p sm] unfolding descending_chain_def by blast

lemma burg_run_124:
  "burg_method [1, 2, 4] 2 False True =
     \<lparr>mean = Some (7 / 3), maxorder = 2, params_out = [- (4 / 5), - (20 / 17), 8 / 17],
      sigma2e_out = [63 / 25, 567 / 289], gain_out = [25 / 9, 289 / 81],
      autocor_out = [4 / 5, 8 / 17], ret = Inr 3\<rparr>"
  by code_simp

text \<open>Three samples, requested order two: the run returns and emits two values.\<close>

theorem sigma2e_nonincreasing_witness:
  "ret (burg_method [1, 2, 4] 2 False True) = Inr 3 \<and>
   sigma2e_out (burg_method [1, 2, 4] 2 False True) = [63 / 25, 567 / 289] \<and>
   sigma2e_out (burg_method [1, 2, 4] 2 False True) ! 1
     \<le> sigma2e_out (burg_method [1, 2, 4] 2 False True) ! 0 \<and>
   length (sigma2e_out (burg_method [1, 2, 4] 2 False True)) = 2"
  using sigma2e_nonincreasing [of "[1, 2, 4]" 2 False] by (simp add: burg_run_124)

section \<open>The hierarchy flag only selects what is emitted\<close>

lemma triangular_blocks:
  "(\<forall>k<length blocks. length (blocks ! k) = k + 1) \<Longrightarrow>
   2 * length (concat blocks) = length blocks * (length blocks + 1)"
proof (induction blocks rule: rev_induct)
  case Nil
  show ?case by simp
next
  case (snoc blk blocks)
  have "\<forall>k<length blocks. length (blocks ! k) = k + 1"
  proof (intro allI impI)
    fix k assume k: "k < length blocks"
    with snoc.prems have "length ((blocks @ [blk]) ! k) = k + 1" by simp
    with k show "length (blocks ! k) = k + 1" by (simp add: nth_append)
  qed
  then have IH: "2 * length (concat blocks) = length blocks * (length blocks + 1)"
    by (rule snoc.IH)
  from snoc.prems [rule_format, of "length blocks"]
  have "length ((blocks @ [blk]) ! length blocks) = length blocks + 1"
    by simp
  then have "length blk = length blocks + 1" by simp
  with IH show ?case by simp
qed

lemma core_fields:
  assumes "core st = core st'"
  shows "Ak st = Ak st'" "sigma2e st = sigma2e st'" "gain st = gain st'" "autocor st = autocor st'"
  using assms by (simp_all add: core_def)

text \<open>
  The first \<open>K\<close> iterations do not depend on \<open>maxorder\<close> beyond the length of \<open>Ak\<close>:
  the sweep over \<open>Ak\<close> touches the entries \<open>0..kp1\<close> only, and the inner product with
  the \<open>kp1 - 1\<close> autocorrelations stops before \<open>Ak[kp1]\<close>.
\<close>

lemma inner_product_take:
  "length xs \<le> n \<Longrightarrow> inner_product xs (take n ys) init = inner_product xs ys init"
proof (induction xs ys init arbitrary: n rule: inner_product.induct)
  case (1 ys init)
  show ?case by simp
next
  case (2 x xs init)
  show ?case by simp
next
  case (3 x xs y ys init)
  then obtain n' where n: "n = Suc n'" by (cases n) auto
  with 3 show ?case by simp
qed

lemma Ak_sweep_take:
  assumes "k \<le> K" "K < length A"
  shows "take (K + 1) (Ak_sweep mu k A) = Ak_sweep mu k (take (K + 1) A)"
proof -
  let ?step = "\<lambda>n A. let t1 = A ! n - mu * A ! (k - n);
                         t2 = A ! (k - n) - mu * A ! n
                     in (A[n := t1])[k - n := t2]"
  have key: "take (K + 1) (fold ?step ns A) = fold ?step ns (take (K + 1) A)"
    if "\<forall>n \<in> set ns. n \<le> k" for ns
    using that
  proof (induction ns arbitrary: A)
    case Nil
    show ?case by simp
  next
    case (Cons n ns)
    then have n: "n < K + 1" "k - n < K + 1" using assms(1) by auto
    have "take (K + 1) (?step n A) = ?step n (take (K + 1) A)"
      using n by (simp add: Let_def take_update_swap)
    with Cons show ?case by simp
  qed
  have "\<forall>n \<in> set [0..<k div 2 + 1]. n \<le> k" by auto
  then show ?thesis unfolding Ak_sweep_def by (rule key)
qed

lemma burg_update_same_upto:
  assumes r: "same_upto K st st'" and k: "k \<le> K" and l: "length (autocor st) + 1 = k"
  shows "(burg_update k st = Inl e) = (burg_update k st' = Inl e)"
    and "burg_update k st = Inr (mu, st1) \<Longrightarrow>
         \<exists>st1'. burg_update k st' = Inr (mu, st1') \<and> same_upto K st1 st1'"
proof -
  from r have eq: "f st = f st'" "b st = b st'" "Dk st = Dk st'" "sigma2e st = sigma2e st'"
    "gain st = gain st'" "autocor st = autocor st'"
    and len: "K < length (Ak st')" and A: "Ak st = take (K + 1) (Ak st')"
    by (simp_all add: same_upto_def)
  define S where "S nu = Ak_sweep nu k (Ak st)" for nu
  define S' where "S' nu = Ak_sweep nu k (Ak st')" for nu
  have sw: "S nu = take (K + 1) (S' nu)" for nu
    unfolding S_def S'_def A by (rule Ak_sweep_take [OF k len, symmetric])
  have len': "K < length (S' nu)" for nu
    using len by (simp add: S'_def Ak_sweep_length)
  have nth: "S nu ! k = S' nu ! k" for nu
    unfolding sw using k by simp
  have dr: "drop 1 (S nu) = take K (drop 1 (S' nu))" for nu
    unfolding sw by (simp add: drop_take)
  have ip: "inner_product (rev (autocor st')) (drop 1 (S nu)) v
            = inner_product (rev (autocor st')) (drop 1 (S' nu)) v" for nu v
    unfolding dr using k l eq(6) by (intro inner_product_take) simp
  have u: "burg_update k st =
     (case vdiv 2 (Dk st') of Inl e \<Rightarrow> Inl e | Inr q \<Rightarrow>
      let mu = q * inner_product (drop k (f st')) (b st') 0 in
      case vdiv 1 (1 - S' mu ! k * S' mu ! k) of Inl e \<Rightarrow> Inl e | Inr q' \<Rightarrow>
      Inr (mu, st\<lparr>sigma2e := sigma2e st' * (1 - mu * mu),
                   Ak := S mu,
                   gain := gain st' * q',
                   autocor := autocor st' @
                     [- inner_product (rev (autocor st')) (drop 1 (S' mu)) (S' mu ! k)]\<rparr>))"
    unfolding burg_update_def Let_def S_def [symmetric] nth ip eq ..
  have u': "burg_update k st' =
     (case vdiv 2 (Dk st') of Inl e \<Rightarrow> Inl e | Inr q \<Rightarrow>
      let mu = q * inner_product (drop k (f st')) (b st') 0 in
      case vdiv 1 (1 - S' mu ! k * S' mu ! k) of Inl e \<Rightarrow> Inl e | Inr q' \<Rightarrow>
      Inr (mu, st'\<lparr>sigma2e := sigma2e st' * (1 - mu * mu),
                   Ak := S' mu,
                   gain := gain st' * q',
                   autocor := autocor st' @
                     [- inner_product (rev (autocor st')) (drop 1 (S' mu)) (S' mu ! k)]\<rparr>))"
    unfolding burg_update_def Let_def S'_def [symmetric] ..
  show "(burg_update k st = Inl e) = (burg_update k st' = Inl e)"
    unfolding u u' by (simp add: Let_def split: sum.splits)
  show "\<exists>st1'. burg_update k st' = Inr (mu, st1') \<and> same_upto K st1 st1'"
    if "burg_update k st = Inr (mu, st1)"
    using that unfolding u u'
    by (auto simp: Let_def same_upto_def eq sw len' split: sum.splits)
qed

lemma burg_emit_same_upto:
  "same_upto K st st' \<Longrightarrow> same_upto K (burg_emit h m k st) (burg_emit h' m' k st')"
  by (simp add: same_upto_def burg_emit_fields)

lemma burg_residuals_same_upto:
  assumes "same_upto K st st'" "(k < m) = (k < m')"
  shows "same_upto K (burg_residuals N m k mu st) (burg_residuals N m' k mu st')"
  using assms by (auto simp: same_upto_def burg_residuals_def split: prod.splits)

lemma burg_residuals_Ak_same_upto:
  assumes "same_upto K st st'"
  shows "Ak (burg_residuals N m k mu st) = take (K + 1) (Ak (burg_residuals N m' k mu st'))"
  using assms by (simp add: same_upto_def burg_residuals_fields)

lemma burg_upto_same_upto:
  "same_upto j st st' \<Longrightarrow> length (autocor st) + 1 = k \<Longrightarrow> mo = j \<Longrightarrow> j \<le> m \<Longrightarrow>
   snd (burg_upto h N mo j k st) = snd (burg_upto h' N m j k st') \<and>
   Ak (fst (burg_upto h N mo j k st)) = take (j + 1) (Ak (fst (burg_upto h' N m j k st')))"
proof (induction h N mo j k st arbitrary: st' rule: burg_upto.induct)
  case (1 h N mo j k st)
  from "1.prems"(1) have A: "Ak st = take (j + 1) (Ak st')" by (simp add: same_upto_def)
  show ?case
  proof (cases "k \<le> j")
    case False
    with A show ?thesis by (simp add: burg_upto_stop)
  next
    case True
    note u = burg_update_same_upto [OF "1.prems"(1) True "1.prems"(2)]
    show ?thesis
    proof (cases "burg_update k st")
      case (Inl e)
      then have "burg_update k st' = Inl e" using u(1) by simp
      with Inl True A show ?thesis
        by (subst burg_upto.simps, subst (2) burg_upto.simps, subst (3) burg_upto.simps,
            subst (4) burg_upto.simps) simp
    next
      case (Inr p)
      obtain mu st1 where p: "p = (mu, st1)" by (cases p)
      have upd: "burg_update k st = Inr (mu, st1)" using Inr p by simp
      from u(2) [OF upd] obtain st1' where
        upd': "burg_update k st' = Inr (mu, st1')" and r1: "same_upto j st1 st1'" by auto
      let ?s3 = "burg_residuals N mo k mu (burg_emit h mo k st1)"
      let ?s3' = "burg_residuals N m k mu (burg_emit h' m k st1')"
      have re: "same_upto j (burg_emit h mo k st1) (burg_emit h' m k st1')"
        by (rule burg_emit_same_upto [OF r1])
      have unf: "burg_upto h N mo j k st = burg_upto h N mo j (k + 1) ?s3"
        "burg_upto h' N m j k st' = burg_upto h' N m j (k + 1) ?s3'"
        using True upd upd' by (simp_all add: burg_upto_step)
      show ?thesis
      proof (cases "k < j")
        case True
        then have c: "(k < mo) = (k < m)" using "1.prems"(3,4) by auto
        have r3: "same_upto j ?s3 ?s3'" by (rule burg_residuals_same_upto [OF re c])
        have l3: "length (autocor ?s3) + 1 = k + 1"
          using "1.prems"(2) burg_update_Inr(8) [OF upd]
          by (simp add: burg_residuals_fields burg_emit_fields)
        from "1.IH" [OF \<open>k \<le> j\<close> Inr p [symmetric] r3 l3 "1.prems"(3,4)]
        show ?thesis unfolding unf .
      next
        case False
        then have "\<not> k + 1 \<le> j" by simp
        then show ?thesis
          unfolding unf using burg_residuals_Ak_same_upto [OF re]
          by (simp add: burg_upto_stop)
      qed
    qed
  qed
qed

lemma burg_upto_prefix_ok:
  "snd (burg_upto h N m m k st) = None \<Longrightarrow> j \<le> m \<Longrightarrow> snd (burg_upto h N m j k st) = None"
proof (induction h N m j k st rule: burg_upto.induct)
  case (1 h N m j k st)
  show ?case
  proof (cases "k \<le> j")
    case False
    then show ?thesis by (simp add: burg_upto_stop)
  next
    case True
    then have km: "k \<le> m" using "1.prems"(2) by simp
    show ?thesis
    proof (cases "burg_update k st")
      case (Inl e)
      with km "1.prems"(1) show ?thesis
        by (subst (asm) burg_upto.simps) simp
    next
      case (Inr p)
      obtain mu st1 where p: "p = (mu, st1)" by (cases p)
      have upd: "burg_update k st = Inr (mu, st1)" using Inr p by simp
      have "snd (burg_upto h N m m (k + 1) (burg_residuals N m k mu (burg_emit h m k st1))) = None"
        using "1.prems"(1) km upd by (simp add: burg_upto_step)
      from "1.IH" [OF True Inr p [symmetric] this "1.prems"(2)]
      show ?thesis using True upd by (simp add: burg_upto_step)
    qed
  qed
qed

text \<open>
  A request \<open>K\<close> with \<open>K + 1 \<le> N\<close> is the effective order, and the call of that order
  without hierarchy emits \<open>Ak[1..K]\<close> as the \<open>K\<close>-th iteration of any longer run leaves
  them.
\<close>

lemma effective_order_of_nat:
  assumes "K + 1 \<le> unat (of_nat N :: 64 word)"
  shows "effective_order (of_nat K) N = of_nat K" "unat (of_nat K :: 64 word) = K"
    "unat (of_nat K + 1 :: 64 word) = K + 1"
proof -
  have bnd: "K + 1 < 18446744073709551616"
    using assms unat_bound64 [of "of_nat N"] by simp
  show uK: "unat (of_nat K :: 64 word) = K"
    using bnd by (simp add: unat_of_nat)
  have s: "(of_nat K + 1 :: 64 word) = of_nat (K + 1)" by simp
  show uK1: "unat (of_nat K + 1 :: 64 word) = K + 1"
    unfolding s using bnd by (simp only: unat_of_nat) simp
  have "(of_nat K + 1 :: 64 word) \<le> of_nat N"
    using assms uK1 by (simp only: word_le_nat_alt)
  then have "min (of_nat K + 1 :: 64 word) (of_nat N) = of_nat K + 1"
    by (simp add: min_def)
  then show "effective_order (of_nat K) N = of_nat K"
    by (simp add: effective_order_def)
qed

lemma effective_order_bound_word:
  assumes "effective_order p N + 1 \<noteq> 0"
  shows "unat (effective_order p N) + 1 \<le> unat (of_nat N :: 64 word)"
proof -
  let ?c = "effective_order p N"
  have "?c + 1 = min (p + 1) (of_nat N)" by (simp add: effective_order_def)
  then have "unat (?c + 1) \<le> unat (of_nat N :: 64 word)"
    by (simp add: word_le_nat_alt [symmetric])
  with effective_order_bound(2) [OF assms] show ?thesis by simp
qed

lemma burg_start_same_upto:
  "K \<le> m \<Longrightarrow> same_upto K (burg_start x sm K) (burg_start x sm m)"
  by (simp add: same_upto_def burg_start_def Let_def take_update_swap min_def)

lemma burg_method_order_block:
  fixes x :: "rat list"
  assumes x: "x \<noteq> []" and K1: "1 \<le> K" and Km: "K \<le> m"
    and KN: "K + 1 \<le> unat (of_nat (length x) :: 64 word)"
    and run: "snd (burg_loop h (length x) m 1 (burg_start x sm m)) = None"
  shows "params_out (burg_method x (of_nat K) sm False)
       = take K (drop 1 (Ak (fst (burg_upto h (length x) m K 1 (burg_start x sm m)))))"
    and "ret (burg_method x (of_nat K) sm False) = Inr (length x)"
proof -
  let ?N = "length x"
  note eo = effective_order_of_nat [OF KN]
  have c0: "effective_order (of_nat K) ?N \<noteq> 0"
    using eo(2) K1 unfolding eo(1) by (auto simp: unat_eq_0 [symmetric])
  have c1: "effective_order (of_nat K) ?N + 1 \<noteq> 0"
    using eo(3) unfolding eo(1) by (auto simp: unat_eq_0 [symmetric])
  have uc: "unat (effective_order (of_nat K) ?N) = K" unfolding eo(1) by (rule eo(2))
  have "unat (of_nat ?N :: 64 word) \<le> ?N" by (simp add: unat_of_nat)
  with KN have KltN: "K < ?N" by simp
  obtain stK eoK where runK: "burg_loop False ?N K 1 (burg_start x sm K) = (stK, eoK)"
    by (cases "burg_loop False ?N K 1 (burg_start x sm K)")
  have l0: "length (autocor (burg_start x sm K)) + 1 = 1"
    by (simp add: burg_start_def Let_def)
  from burg_upto_same_upto [OF burg_start_same_upto [OF Km] l0 refl Km, where h = False and N = "?N" and h' = h]
  have su: "snd (burg_upto False ?N K K 1 (burg_start x sm K))
             = snd (burg_upto h ?N m K 1 (burg_start x sm m))"
    "Ak (fst (burg_upto False ?N K K 1 (burg_start x sm K)))
       = take (K + 1) (Ak (fst (burg_upto h ?N m K 1 (burg_start x sm m))))"
    by simp_all
  have "snd (burg_upto h ?N m m 1 (burg_start x sm m)) = None"
    using run by (simp add: burg_upto_all)
  then have "snd (burg_upto h ?N m K 1 (burg_start x sm m)) = None"
    using Km by (rule burg_upto_prefix_ok)
  with su(1) runK have eK: "eoK = None" by (simp add: burg_upto_all)
  from su(2) runK have AK: "Ak stK = take (K + 1) (Ak (fst (burg_upto h ?N m K 1 (burg_start x sm m))))"
    by (simp add: burg_upto_all)
  have nf: "\<not> False" by simp
  note inv = burg_start_inv [OF x K1, of sm]
  have K1': "1 \<le> K" by (rule K1)
  from burg_loop_final_only [OF nf KltN inv K1' runK [unfolded eK]]
  have fo: "params_first stK = take K (drop 1 (Ak stK))"
    by (simp add: burg_start_sinks)
  have out: "burg_method x (of_nat K) sm False =
    \<lparr>mean = Some (sum_list x / of_nat ?N), maxorder = effective_order (of_nat K) ?N,
     params_out = params_first stK, sigma2e_out = sigma2e_first stK, gain_out = gain_first stK,
     autocor_out = (case eoK of None \<Rightarrow> autocor stK | Some e \<Rightarrow> []),
     ret = (case eoK of None \<Rightarrow> Inr ?N | Some e \<Rightarrow> Inl e)\<rparr>"
  proof (rule burg_method_loop [OF x c0 c1])
    show "burg_loop False ?N (unat (effective_order (of_nat K) ?N)) 1
            (burg_start x sm (unat (effective_order (of_nat K) ?N))) = (stK, eoK)"
      unfolding uc by (rule runK)
  qed
  show "params_out (burg_method x (of_nat K) sm False)
       = take K (drop 1 (Ak (fst (burg_upto h ?N m K 1 (burg_start x sm m)))))"
  proof -
    have "params_out (burg_method x (of_nat K) sm False) = params_first stK"
      by (subst out) simp
    also have "\<dots> = take K (drop 1 (take (K + 1) (Ak (fst (burg_upto h ?N m K 1 (burg_start x sm m))))))"
      unfolding fo AK ..
    also have "\<dots> = take K (drop 1 (Ak (fst (burg_upto h ?N m K 1 (burg_start x sm m)))))"
      by (simp add: drop_take)
    finally show ?thesis .
  qed
  show "ret (burg_method x (of_nat K) sm False) = Inr ?N"
    by (subst out) (simp add: eK)
qed

text \<open>
  Claim C3, as amended.  Let the call with \<open>hierarchy = true\<close> return.  Then the
  identical call with \<open>hierarchy = false\<close> returns the same count, order, mean and \<open>p\<close>
  autocorrelations.  The hierarchy run emits \<open>p\<close> values of \<open>sigma2e\<close>, \<open>p\<close> gains and
  \<open>p (p + 1) / 2\<close> coefficients, the concatenation of the blocks AR(1), ..., AR(p), where
  AR(k) is the \<open>k\<close> values \<open>a\<^sub>1, ..., a\<^sub>k\<close>: the entries \<open>Ak[1..k]\<close> as the \<open>k\<close>-th iteration
  leaves them, which are the coefficients that the call of requested order \<open>k\<close> without
  hierarchy emits.  For \<open>p \<ge> 1\<close> the other run emits the last block, of length \<open>p\<close>, the last
  \<open>sigma2e\<close> and the last gain; for \<open>p = 0\<close> it emits nothing, as the hierarchy run does.
\<close>

theorem hierarchy_flag_only_selects:
  fixes x :: "rat list" and p :: "64 word" and sm :: bool
  defines "o1 \<equiv> burg_method x p sm False" and "o2 \<equiv> burg_method x p sm True"
  assumes ok: "ret o2 = Inr n"
  shows "ret o1 = Inr n \<and> maxorder o1 = maxorder o2 \<and> mean o1 = mean o2 \<and>
     autocor_out o1 = autocor_out o2 \<and> length (autocor_out o2) = unat (maxorder o2) \<and>
     length (sigma2e_out o2) = unat (maxorder o2) \<and> length (gain_out o2) = unat (maxorder o2) \<and>
     2 * length (params_out o2) = unat (maxorder o2) * (unat (maxorder o2) + 1) \<and>
     (\<exists>blocks. params_out o2 = concat blocks \<and> length blocks = unat (maxorder o2) \<and>
        (\<forall>k<length blocks. length (blocks ! k) = k + 1) \<and>
        (\<forall>k<length blocks.
           blocks ! k = take (k + 1) (drop 1 (Ak (fst (burg_upto True (length x)
             (unat (maxorder o2)) (k + 1) 1 (burg_start x sm (unat (maxorder o2)))))))) \<and>
        (\<forall>k<length blocks.
           blocks ! k = params_out (burg_method x (of_nat (k + 1)) sm False)) \<and>
        (if maxorder o2 = 0
         then params_out o1 = [] \<and> sigma2e_out o1 = [] \<and> gain_out o1 = []
         else params_out o1 = last blocks \<and> length (params_out o1) = unat (maxorder o2) \<and>
              sigma2e_out o1 = [last (sigma2e_out o2)] \<and> gain_out o1 = [last (gain_out o2)]))"
proof -
  let ?c = "effective_order p (length x)"
  consider (empty) "x = []" | (zero) "x \<noteq> []" "?c = 0"
    | (wrap) "x \<noteq> []" "?c \<noteq> 0" "?c + 1 = 0"
    | (loop) "x \<noteq> []" "?c \<noteq> 0" "?c + 1 \<noteq> 0"
    by blast
  then show ?thesis
  proof cases
    case empty
    with ok show ?thesis by (simp add: o2_def burg_method_Nil)
  next
    case zero
    with ok show ?thesis
      by (simp add: o1_def o2_def burg_method_zero)
  next
    case wrap
    with ok show ?thesis by (simp add: o2_def burg_method_wrap)
  next
    case loop
    let ?m = "unat ?c"
    let ?st0 = "burg_start x sm ?m"
    obtain st2 eo2 where run2: "burg_loop True (length x) ?m 1 ?st0 = (st2, eo2)"
      by (cases "burg_loop True (length x) ?m 1 ?st0")
    obtain st1 eo1 where run1: "burg_loop False (length x) ?m 1 ?st0 = (st1, eo1)"
      by (cases "burg_loop False (length x) ?m 1 ?st0")
    have out2: "o2 = \<lparr>mean = Some (sum_list x / of_nat (length x)), maxorder = ?c,
        params_out = params_first st2, sigma2e_out = sigma2e_first st2, gain_out = gain_first st2,
        autocor_out = (case eo2 of None \<Rightarrow> autocor st2 | Some e \<Rightarrow> []),
        ret = (case eo2 of None \<Rightarrow> Inr (length x) | Some e \<Rightarrow> Inl e)\<rparr>"
      unfolding o2_def by (rule burg_method_loop [OF loop run2])
    have out1: "o1 = \<lparr>mean = Some (sum_list x / of_nat (length x)), maxorder = ?c,
        params_out = params_first st1, sigma2e_out = sigma2e_first st1, gain_out = gain_first st1,
        autocor_out = (case eo1 of None \<Rightarrow> autocor st1 | Some e \<Rightarrow> []),
        ret = (case eo1 of None \<Rightarrow> Inr (length x) | Some e \<Rightarrow> Inl e)\<rparr>"
      unfolding o1_def by (rule burg_method_loop [OF loop run1])
    from burg_loop_core [of ?st0 ?st0 True "length x" ?m 1 False] run1 run2
    have same: "eo2 = eo1" "core st2 = core st1" by simp_all
    from ok out2 have e2: "eo2 = None" and n: "n = length x" by (cases eo2; simp)+
    with same have e1: "eo1 = None" by simp
    note cf = core_fields [OF same(2)]
    have m: "?m < length x" by (rule effective_order_bound(1) [OF loop(3)])
    have m1: "1 \<le> ?m" using loop(2) by (simp add: unat_eq_0 [symmetric] Suc_le_eq)
    note inv = burg_start_inv [OF loop(1) m1, of sm]
    have le: "1 \<le> ?m + 1" by simp
    from burg_loop_hierarchy_blocks [OF TrueI m inv le run2 [unfolded e2]]
    obtain blocks ss gs where b:
      "params_first st2 = concat blocks" "length blocks = ?m"
      "\<forall>j<length blocks. length (blocks ! j) = 1 + j"
      and bc: "\<forall>j<length blocks.
         blocks ! j = take (1 + j) (drop 1 (Ak (fst (burg_upto True (length x) ?m (1 + j) 1 ?st0))))"
      and b2:
      "sigma2e_first st2 = ss" "length ss = ?m" "gain_first st2 = gs" "length gs = ?m"
      "last blocks = take ?m (drop 1 (Ak st2))" "last ss = sigma2e st2" "last gs = gain st2"
      "length (autocor st2) = ?m"
      using m1 by (auto simp: burg_start_sinks)
    have nf: "\<not> False" by simp
    from burg_loop_final_only [OF nf m inv m1 run1 [unfolded e1]]
    have fo: "params_first st1 = take ?m (drop 1 (Ak st1))" "sigma2e_first st1 = [sigma2e st1]"
      "gain_first st1 = [gain st1]"
      by (simp_all add: burg_start_sinks)
    have b3: "\<forall>k<length blocks. length (blocks ! k) = k + 1" using b(3) by simp
    have bc': "\<forall>k<length blocks.
         blocks ! k = take (k + 1) (drop 1 (Ak (fst (burg_upto True (length x) ?m (k + 1) 1 ?st0))))"
      using bc by simp
    have run2': "snd (burg_loop True (length x) ?m 1 ?st0) = None"
      using run2 e2 by simp
    note mw = effective_order_bound_word [OF loop(3)]
    have bo: "\<forall>k<length blocks.
         blocks ! k = params_out (burg_method x (of_nat (k + 1)) sm False)"
    proof (intro allI impI)
      fix k assume k: "k < length blocks"
      have k1: "1 \<le> k + 1" by simp
      have km: "k + 1 \<le> ?m" using k b(2) by simp
      have kw: "k + 1 + 1 \<le> unat (of_nat (length x) :: 64 word)" using km mw by simp
      from burg_method_order_block(1) [OF loop(1) k1 km kw run2'] bc' [rule_format, OF k]
      show "blocks ! k = params_out (burg_method x (of_nat (k + 1)) sm False)" by simp
    qed
    have tri: "2 * length (params_out o2) = ?m * (?m + 1)"
      using triangular_blocks [OF b3] b(1,2) out2 by simp
    have c0: "?c \<noteq> 0" by (rule loop(2))
    have "blocks \<noteq> []" using b(2) m1 by auto
    moreover have "length (blocks ! (?m - 1)) = ?m - 1 + 1"
      using b3 [rule_format, of "?m - 1"] b(2) m1 by simp
    ultimately have "length (last blocks) = ?m"
      using b(2) m1 by (simp add: last_conv_nth)
    then have lp: "length (params_out o1) = ?m"
      using out1 fo(1) b2(5) cf(1) by simp
    have sel: "params_out o1 = last blocks" "sigma2e_out o1 = [last (sigma2e_out o2)]"
      "gain_out o1 = [last (gain_out o2)]"
      using out1 out2 fo b2(1,3,5,6,7) cf by simp_all
    have head: "ret o1 = Inr n" "maxorder o1 = maxorder o2" "mean o1 = mean o2"
      "autocor_out o1 = autocor_out o2" "length (autocor_out o2) = unat (maxorder o2)"
      "length (sigma2e_out o2) = unat (maxorder o2)" "length (gain_out o2) = unat (maxorder o2)"
      using out1 out2 e1 e2 n cf(4) b2(1,2,3,4,8) by simp_all
    have mo: "maxorder o2 = ?c" using out2 by simp
    have ex: "\<exists>blocks. params_out o2 = concat blocks \<and> length blocks = unat (maxorder o2) \<and>
        (\<forall>k<length blocks. length (blocks ! k) = k + 1) \<and>
        (\<forall>k<length blocks.
           blocks ! k = take (k + 1) (drop 1 (Ak (fst (burg_upto True (length x)
             (unat (maxorder o2)) (k + 1) 1 (burg_start x sm (unat (maxorder o2)))))))) \<and>
        (\<forall>k<length blocks.
           blocks ! k = params_out (burg_method x (of_nat (k + 1)) sm False)) \<and>
        (if maxorder o2 = 0
         then params_out o1 = [] \<and> sigma2e_out o1 = [] \<and> gain_out o1 = []
         else params_out o1 = last blocks \<and> length (params_out o1) = unat (maxorder o2) \<and>
              sigma2e_out o1 = [last (sigma2e_out o2)] \<and> gain_out o1 = [last (gain_out o2)])"
      apply (rule exI [of _ blocks])
      using b(1,2) b3 bc' bo sel lp c0 out2 unfolding mo
      apply simp
      done
    from head tri ex mo show ?thesis by simp
  qed
qed

lemma burg_run_124_final:
  "burg_method [1, 2, 4] 2 False False =
     \<lparr>mean = Some (7 / 3), maxorder = 2, params_out = [- (20 / 17), 8 / 17],
      sigma2e_out = [567 / 289], gain_out = [289 / 81],
      autocor_out = [4 / 5, 8 / 17], ret = Inr 3\<rparr>"
  by code_simp

lemma burg_states_124:
  "take 1 (drop 1 (Ak (fst (burg_upto True 3 2 1 1 (burg_start [1, 2, 4] False 2))))) = [- (4 / 5)] \<and>
   take 2 (drop 1 (Ak (fst (burg_upto True 3 2 2 1 (burg_start [1, 2, 4] False 2)))))
     = [- (20 / 17), 8 / 17] \<and>
   Ak (fst (burg_upto True 3 2 2 1 (burg_start [1, 2, 4] False 2))) = [1, - (20 / 17), 8 / 17]"
  by code_simp

lemma burg_run_124_one:
  "params_out (burg_method [1, 2, 4] 1 False False) = [- (4 / 5)]"
  by code_simp

text \<open>
  Three samples, requested order two, in both modes: the hierarchy run emits \<open>a\<^sub>1\<close> of
  order one and then \<open>a\<^sub>1, a\<^sub>2\<close> of order two, without the leading \<open>Ak[0] = 1\<close>.  The
  first block is what the call of requested order one emits.
\<close>

theorem hierarchy_flag_only_selects_witness:
  "ret (burg_method [1, 2, 4] 2 False True) = Inr 3 \<and>
   ret (burg_method [1, 2, 4] 2 False False) = Inr 3 \<and>
   params_out (burg_method [1, 2, 4] 2 False True) = [- (4 / 5), - (20 / 17), 8 / 17] \<and>
   params_out (burg_method [1, 2, 4] 2 False True)
     = concat [take 1 (drop 1 (Ak (fst (burg_upto True 3 2 1 1 (burg_start [1, 2, 4] False 2))))),
               take 2 (drop 1 (Ak (fst (burg_upto True 3 2 2 1 (burg_start [1, 2, 4] False 2)))))] \<and>
   Ak (fst (burg_upto True 3 2 2 1 (burg_start [1, 2, 4] False 2))) = [1, - (20 / 17), 8 / 17] \<and>
   params_out (burg_method [1, 2, 4] 2 False False) = [- (20 / 17), 8 / 17] \<and>
   params_out (burg_method [1, 2, 4] 2 False True)
     = params_out (burg_method [1, 2, 4] 1 False False)
       @ params_out (burg_method [1, 2, 4] 2 False False) \<and>
   sigma2e_out (burg_method [1, 2, 4] 2 False False)
     = [last (sigma2e_out (burg_method [1, 2, 4] 2 False True))] \<and>
   autocor_out (burg_method [1, 2, 4] 2 False False)
     = autocor_out (burg_method [1, 2, 4] 2 False True)"
  using hierarchy_flag_only_selects [of "[1, 2, 4]" 2 False 3] burg_states_124
  by (simp add: burg_run_124 burg_run_124_final burg_run_124_one)

text \<open>
  With requested order zero the call returns at the short circuit: no \<open>sigma2e\<close> and no
  gain is emitted, not one of each.  And on a constant series with the mean subtracted
  \<open>Dk\<close> is zero: the exact division \<open>2/Dk\<close> ends the run with \<open>p = 2\<close> and no coefficient
  emitted.
\<close>

theorem hierarchy_flag_counterexample:
  "ret (burg_method [1, 2, 3] 0 False False) = Inr 3 \<and>
   maxorder (burg_method [1, 2, 3] 0 False False) = 0 \<and>
   sigma2e_out (burg_method [1, 2, 3] 0 False False) = [] \<and>
   gain_out (burg_method [1, 2, 3] 0 False False) = [] \<and>
   length (sigma2e_out (burg_method [1, 2, 3] 0 False False)) \<noteq> 1 \<and>
   length (gain_out (burg_method [1, 2, 3] 0 False False)) \<noteq> 1 \<and>
   ret (burg_method [5, 5, 5, 5, 5] 2 True False) = Inl DivisionByZero \<and>
   maxorder (burg_method [5, 5, 5, 5, 5] 2 True False) = 2 \<and>
   params_out (burg_method [5, 5, 5, 5, 5] 2 True False) = []"
proof -
  have "burg_method [1, 2, 3] 0 False False =
     \<lparr>mean = Some 2, maxorder = 0, params_out = [], sigma2e_out = [], gain_out = [],
      autocor_out = [], ret = Inr 3\<rparr>"
    by code_simp
  moreover have "burg_method [5, 5, 5, 5, 5] 2 True False =
     \<lparr>mean = Some 5, maxorder = 2, params_out = [], sigma2e_out = [], gain_out = [],
      autocor_out = [], ret = Inl DivisionByZero\<rparr>"
    by code_simp
  ultimately show ?thesis by simp
qed

section \<open>A request of the largest order\<close>

lemma effective_order_max: "effective_order (- 1) N = - 1"
  by (simp add: effective_order_def)

text \<open>
  Claim C2.  With a nonempty input and the largest \<open>std::size_t\<close> as requested order,
  \<open>maxorder + 1\<close> wraps to \<open>0\<close>, \<open>min(0, N) - 1\<close> wraps back, and the order written to
  \<open>maxorder\<close> is \<open>2 ^ 64 - 1\<close>, whatever \<open>N\<close> is.  The vector \<open>Ak\<close> then has
  \<open>maxorder + 1 = 0\<close> elements and \<open>Ak[0] = 1\<close> is out of range; the function does not
  return \<open>N\<close>.
\<close>

theorem burg_maxorder_wraps:
  assumes "x \<noteq> []"
  shows "burg_method x (- 1) sm h =
     \<lparr>mean = Some (sum_list x / of_nat (length x)), maxorder = - 1, params_out = [],
      sigma2e_out = [], gain_out = [], autocor_out = [], ret = Inl OutOfRange\<rparr>"
  using burg_method_wrap [OF assms, of "- 1" sm h] by (simp add: effective_order_max)

text \<open>Three samples: the order written is above \<open>N - 1 = 2\<close>.\<close>

theorem burg_maxorder_wraps_witness:
  "[1, 2, 3 :: rat] \<noteq> [] \<and>
   burg_method [1, 2, 3] (- 1) False False =
     \<lparr>mean = Some 2, maxorder = - 1, params_out = [], sigma2e_out = [], gain_out = [],
      autocor_out = [], ret = Inl OutOfRange\<rparr> \<and>
   2 < maxorder (burg_method [1, 2, 3] (- 1) False False)"
  using burg_maxorder_wraps [of "[1, 2, 3]" False False] by simp

end
